theory Spec2Isabelle
  imports Main
begin

section \<open>Values, property keys and objects\<close>

text \<open>
  The runtime of \<^verbatim>\<open>src/unnamed/part_000\<close> (the reactive library) keeps its bookkeeping in
  module-level variables keyed by object identity. Objects are modelled by their index in
  a heap; a wrapper (a JavaScript \<^verbatim>\<open>Proxy\<close>) is an object of its own, with an identity
  different from its target's.

  A property key is a string or a symbol. \<open>Idx n\<close> stands for the canonical decimal string
  of the array index \<open>n\<close> (the key \<^verbatim>\<open>"3"\<close> is \<open>Idx 3\<close>); \<open>Str\<close> carries every other string.
\<close>

datatype key = Str string | Idx nat | Sym nat

text \<open>
  \<open>VInstr m\<close> is the function \<^verbatim>\<open>arrayInstrumentations[m]\<close> installed by the module for one
  of the seven mutating methods; \<open>VProto k\<close> is the member \<open>k\<close> that the plain object
  \<^verbatim>\<open>arrayInstrumentations\<close> inherits from \<^verbatim>\<open>Object.prototype\<close>; both are function values, which
  the \<^verbatim>\<open>get\<close> trap hands out as they are. Numbers are integers, with \<open>VNaN\<close> kept apart
  because \<^verbatim>\<open>NaN !== NaN\<close>.
\<close>

datatype val =
    VUndef | VNull | VBool bool | VNum int | VNaN | VStr string
  | VRef nat | VInstr string | VProto string

text \<open>The operator \<^verbatim>\<open>!==\<close>.\<close>

definition strict_neq :: "val \<Rightarrow> val \<Rightarrow> bool" where
  "strict_neq a b = (if a = VNaN \<or> b = VNaN then True else a \<noteq> b)"

text \<open>
  A plain object holds own data properties; \<open>is_arr\<close> is \<^verbatim>\<open>Array.isArray\<close>. A wrapper
  records its target and the \<^verbatim>\<open>isArray\<close> constant its handler closes over.
\<close>

datatype obj =
    Plain (props: "key \<Rightarrow> val option") (is_arr: bool)
  | Proxy (ptarget: nat) (is_arr: bool)

subsection \<open>The library's array methods, as seen by the wrapper\<close>

text \<open>
  \<^verbatim>\<open>Array.prototype[method].apply(this, args)\<close> is library code. ECMAScript specifies each
  of these methods as a sequence of the internal methods Get, Set, DeletePropertyOrThrow and
  HasProperty on \<^verbatim>\<open>this\<close>, continuing on the values read. A native call is therefore a
  tree of such steps, given to the model by the caller.
\<close>

datatype nprog =
    NDone val
  | NThrow
  | NGet key "val \<Rightarrow> nprog"
  | NSet key val nprog
  | NDelete key nprog
  | NHas key "bool \<Rightarrow> nprog"

datatype "method" = Push | Pop | Shift | Unshift | Splice | Sort | Reverse

fun method_name :: "method \<Rightarrow> string" where
  "method_name Push = ''push''"
| "method_name Pop = ''pop''"
| "method_name Shift = ''shift''"
| "method_name Unshift = ''unshift''"
| "method_name Splice = ''splice''"
| "method_name Sort = ''sort''"
| "method_name Reverse = ''reverse''"

subsection \<open>Caller code\<close>

text \<open>
  The functions handed to \<^verbatim>\<open>effect\<close> and \<^verbatim>\<open>createEffect\<close> are caller code. A body is a list of
  statements over a variable holding an object reference and a path of property reads:
  \<open>Get x [k1, k2]\<close> is the expression statement \<^verbatim>\<open>x.k1.k2\<close>, \<open>Put x ks k v\<close> the assignment
  \<^verbatim>\<open>x.ks[k] = v\<close>, \<open>Delete x ks k\<close> is \<^verbatim>\<open>delete x.ks[k]\<close>, \<open>Call x ks m n\<close> the method call
  \<^verbatim>\<open>x.ks.m(...)\<close> whose library behaviour is \<open>n\<close>, \<open>IfEq x ks v a b\<close> the conditional
  \<^verbatim>\<open>if (x.ks === v) a else b\<close>, \<open>Effect b\<close> the call \<^verbatim>\<open>effect(() => b)\<close>, \<open>Dispose e\<close> a call of
  the disposer that \<^verbatim>\<open>effect\<close> returned for subscriber \<open>e\<close>, \<open>CreateEffect b c\<close> the call
  \<^verbatim>\<open>createEffect(() => { b; return c })\<close>, \<open>Wrap o p k\<close> the call \<^verbatim>\<open>createState(o, p, k)\<close>, and
  \<open>Raise\<close> a \<^verbatim>\<open>throw\<close>. The module is strict code: a \<^verbatim>\<open>delete\<close> that fails raises TypeError, as
  does a property access on \<^verbatim>\<open>undefined\<close> or \<^verbatim>\<open>null\<close>.
\<close>

datatype cmd =
    Get nat "key list"
  | Put nat "key list" key val
  | Delete nat "key list" key
  | Call nat "key list" "method" nprog
  | IfEq nat "key list" val "cmd list" "cmd list"
  | Effect "cmd list"
  | Dispose nat
  | CreateEffect "cmd list" "cmd list option"
  | Wrap nat "nat option" "key option"
  | Raise

datatype error = UsageError | TypeError | UserError

datatype 'a completion = Normal 'a | Throw error

text \<open>
  A subscriber is a closure: \<open>Free b\<close> is the \<^verbatim>\<open>execute\<close> closure of \<^verbatim>\<open>effect(() => b)\<close>;
  \<open>Scoped b c\<close> is the \<^verbatim>\<open>effectRunner\<close> closure made by one call of \<^verbatim>\<open>reactiveEffectFn\<close> for
  \<^verbatim>\<open>createEffect(() => { b; return c })\<close>. Its identity is its index in \<open>subs\<close>.
\<close>

datatype sub = Free "cmd list" | Scoped "cmd list" "cmd list option"

section \<open>The module state\<close>

text \<open>
  One field for each module-level variable of the source, under its name. The weak maps
  are maps from object (or closure) identities. A \<^verbatim>\<open>Set\<close> is a list without duplicates
  in insertion order; the sets of \<^verbatim>\<open>effectDepsMap\<close> hold a fresh object literal for each
  tracked read, so they are lists that may repeat a pair. \<open>microtasks\<close> counts the
  \<^verbatim>\<open>flushEffects\<close> jobs queued by \<^verbatim>\<open>queueMicrotask\<close>. \<open>runner_cleanup\<close> and
  \<open>runner_tracked\<close> are the variables \<^verbatim>\<open>cleanup\<close> and \<^verbatim>\<open>trackedDeps\<close> that each \<^verbatim>\<open>effectRunner\<close>
  closes over. \<open>runs\<close> is not a variable of the source: it logs every invocation of a
  subscriber (\<^verbatim>\<open>execute\<close> or \<^verbatim>\<open>effectRunner\<close>), so that runs can be counted.
\<close>

record state =
  heap :: "obj list"
  activeEffect :: "nat option"
  targetMap :: "nat \<Rightarrow> (key \<Rightarrow> nat list option) option"
  effectDepsMap :: "nat \<Rightarrow> (nat \<times> key) list option"
  proxyCache :: "nat \<Rightarrow> nat option"
  proxyParentMap :: "nat \<Rightarrow> (nat \<times> key) option"
  pendingEffects :: "nat list"
  isFlushPending :: bool
  microtasks :: nat
  activeComponentEffects :: "(cmd list \<times> cmd list option) list option"
  subs :: "sub list"
  runner_cleanup :: "nat \<Rightarrow> cmd list option"
  runner_tracked :: "nat \<Rightarrow> (nat \<times> key) list"
  runs :: "nat list"

text \<open>\<^verbatim>\<open>Set.prototype.add\<close> and \<^verbatim>\<open>Set.prototype.delete\<close>.\<close>

definition set_add :: "'a \<Rightarrow> 'a list \<Rightarrow> 'a list" where
  "set_add x xs = (if x \<in> set xs then xs else xs @ [x])"

definition set_delete :: "'a \<Rightarrow> 'a list \<Rightarrow> 'a list" where
  "set_delete x xs = removeAll x xs"

text \<open>The forward index read at one edge: the subscribers of \<open>(t, k)\<close>.\<close>

definition deps :: "state \<Rightarrow> nat \<Rightarrow> key \<Rightarrow> nat list" where
  "deps s t k =
     (case targetMap s t of None \<Rightarrow> []
      | Some depsMap \<Rightarrow> (case depsMap k of None \<Rightarrow> [] | Some ds \<Rightarrow> ds))"

text \<open>The reverse index read at one subscriber.\<close>

definition effectDeps :: "state \<Rightarrow> nat \<Rightarrow> (nat \<times> key) list" where
  "effectDeps s e = (case effectDepsMap s e of None \<Rightarrow> [] | Some l \<Rightarrow> l)"

section \<open>Scheduler\<close>

definition queueEffect :: "state \<Rightarrow> nat \<Rightarrow> state" where
  "queueEffect s e =
     (let s1 = s\<lparr>pendingEffects := set_add e (pendingEffects s)\<rparr>
      in if \<not> isFlushPending s1
         then s1\<lparr>isFlushPending := True, microtasks := Suc (microtasks s1)\<rparr>
         else s1)"

section \<open>Dependency graph\<close>

definition track :: "state \<Rightarrow> nat \<Rightarrow> key \<Rightarrow> state" where
  "track s t k =
     (case activeEffect s of
        None \<Rightarrow> s
      | Some a \<Rightarrow>
          (let depsMap = (case targetMap s t of None \<Rightarrow> (\<lambda>_. None) | Some m \<Rightarrow> m);
               ds = (case depsMap k of None \<Rightarrow> [] | Some d \<Rightarrow> d);
               eds = (case effectDepsMap s a of None \<Rightarrow> [] | Some l \<Rightarrow> l)
           in s\<lparr>targetMap := (targetMap s)(t \<mapsto> depsMap(k \<mapsto> set_add a ds)),
                effectDepsMap := (effectDepsMap s)(a \<mapsto> eds @ [(t, k)])\<rparr>))"

definition trigger :: "state \<Rightarrow> nat \<Rightarrow> key \<Rightarrow> state" where
  "trigger s t k =
     (case targetMap s t of
        None \<Rightarrow> s
      | Some depsMap \<Rightarrow>
          (case depsMap k of
             None \<Rightarrow> s
           | Some ds \<Rightarrow> foldl queueEffect s ds))"

section \<open>State interception\<close>

definition Array_isArray :: "state \<Rightarrow> nat \<Rightarrow> bool" where
  "Array_isArray s x = (x < length (heap s) \<and> is_arr (heap s ! x))"

text \<open>
  \<^verbatim>\<open>key in arrayInstrumentations\<close>, for a string key: the seven own properties and the
  properties of \<^verbatim>\<open>Object.prototype\<close>, which the object literal inherits.
\<close>

definition instrumented_names :: "string list" where
  "instrumented_names = [''push'', ''pop'', ''shift'', ''unshift'', ''splice'', ''sort'', ''reverse'']"

definition object_prototype_names :: "string list" where
  "object_prototype_names =
     [''constructor'', ''__defineGetter__'', ''__defineSetter__'', ''hasOwnProperty'',
      ''__lookupGetter__'', ''__lookupSetter__'', ''isPrototypeOf'', ''propertyIsEnumerable'',
      ''toString'', ''valueOf'', ''__proto__'', ''toLocaleString'']"

definition arrayInstrumentations :: "key \<Rightarrow> val option" where
  "arrayInstrumentations k =
     (case k of
        Str n \<Rightarrow> (if n \<in> set instrumented_names then Some (VInstr n)
                  else if n \<in> set object_prototype_names then Some (VProto n)
                  else None)
      | _ \<Rightarrow> None)"

definition createState :: "state \<Rightarrow> nat \<Rightarrow> nat option \<Rightarrow> key option \<Rightarrow> state \<times> nat" where
  "createState s x parent k =
     (case proxyCache s x of
        Some existingProxy \<Rightarrow> (s, existingProxy)
      | None \<Rightarrow>
          (let isArray = Array_isArray s x;
               proxy = length (heap s);
               s1 = s\<lparr>heap := heap s @ [Proxy x isArray],
                      proxyCache := (proxyCache s)(x \<mapsto> proxy)\<rparr>;
               s2 = (case parent of
                       Some pa \<Rightarrow>
                         (case k of
                            Some ky \<Rightarrow> s1\<lparr>proxyParentMap := (proxyParentMap s1)(proxy \<mapsto> (pa, ky))\<rparr>
                          | None \<Rightarrow> s1)
                     | None \<Rightarrow> s1)
           in (s2, proxy)))"

text \<open>
  Own-property access on a plain object; members inherited from a prototype are not
  modelled, a missing own property reads as \<^verbatim>\<open>undefined\<close>. An array keeps \<^verbatim>\<open>length\<close> as the
  property \<open>Str ''length''\<close>: defining an index at or beyond it grows it, and assigning a
  smaller length removes the indices from there on. Assigning to \<^verbatim>\<open>length\<close> a value that is
  not an integer from 0 to \<open>2^32 - 1\<close> makes the library convert the value or raise
  RangeError; such assignments are outside the model, which leaves the array as it is. The
  \<^verbatim>\<open>length\<close> of an array cannot be deleted.
\<close>

definition raw_get :: "(key \<Rightarrow> val option) \<Rightarrow> key \<Rightarrow> val" where
  "raw_get ps k = (case ps k of None \<Rightarrow> VUndef | Some v \<Rightarrow> v)"

definition array_length :: "(key \<Rightarrow> val option) \<Rightarrow> nat" where
  "array_length ps = (case ps (Str ''length'') of Some (VNum n) \<Rightarrow> nat n | _ \<Rightarrow> 0)"

definition array_set :: "(key \<Rightarrow> val option) \<Rightarrow> key \<Rightarrow> val \<Rightarrow> (key \<Rightarrow> val option)" where
  "array_set ps k v =
     (case k of
        Idx i \<Rightarrow>
          (if array_length ps \<le> i
           then ps(Idx i \<mapsto> v, Str ''length'' \<mapsto> VNum (int i + 1))
           else ps(Idx i \<mapsto> v))
      | Str n \<Rightarrow>
          (if n = ''length''
           then (case v of
                   VNum m \<Rightarrow>
                     (if 0 \<le> m \<and> m < 2 ^ 32
                      then (\<lambda>k'. case k' of Idx j \<Rightarrow> (if nat m \<le> j then None else ps k')
                                   | _ \<Rightarrow> ps k')(Str ''length'' \<mapsto> VNum m)
                      else ps)
                 | _ \<Rightarrow> ps)
           else ps(k \<mapsto> v))
      | Sym _ \<Rightarrow> ps(k \<mapsto> v))"

definition raw_set :: "(key \<Rightarrow> val option) \<Rightarrow> bool \<Rightarrow> key \<Rightarrow> val \<Rightarrow> obj" where
  "raw_set ps arr k v = (if arr then Plain (array_set ps k v) arr else Plain (ps(k \<mapsto> v)) arr)"

definition raw_delete :: "(key \<Rightarrow> val option) \<Rightarrow> bool \<Rightarrow> key \<Rightarrow> obj" where
  "raw_delete ps arr k =
     (if arr \<and> k = Str ''length'' then Plain ps arr else Plain (ps(k := None)) arr)"

text \<open>
  \<open>obj_get s x k\<close> is the internal method Get of object \<open>x\<close>: an own-property read on a
  plain object, the handler's \<^verbatim>\<open>get\<close> trap on a wrapper. The trap's \<^verbatim>\<open>Reflect.get(target, ...)\<close>
  is the Get of the target, which is a wrapper itself when a wrapper was wrapped. The
  receiver is not modelled: plain data properties ignore it. A wrapper is allocated after
  its target, so the target's index is the smaller one.
\<close>

function obj_get :: "state \<Rightarrow> nat \<Rightarrow> key \<Rightarrow> state \<times> val" where
  "obj_get s x k =
     (if length (heap s) \<le> x then (s, VUndef)
      else (case heap s ! x of
        Plain ps arr \<Rightarrow> (s, raw_get ps k)
      | Proxy target isArray \<Rightarrow>
          (if \<not> target < x then (s, VUndef)
           else if isArray \<and> arrayInstrumentations k \<noteq> None
           then (s, the (arrayInstrumentations k))
           else (case obj_get s target k of
                   (s1, value) \<Rightarrow>
                     (let s2 = track s1 target k
                      in (case value of
                            VRef v \<Rightarrow> (case createState s2 v (Some target) (Some k) of
                                         (s3, p) \<Rightarrow> (s3, VRef p))
                          | _ \<Rightarrow> (s2, value)))))))"
  by pat_completeness auto
termination
  by (relation "measure (\<lambda>(s, x, k). x)") auto

declare obj_get.simps [simp del]

text \<open>
  \<open>obj_set s x k v\<close> is the internal method Set of object \<open>x\<close>: the handler's \<^verbatim>\<open>set\<close> trap on a
  wrapper. With the wrapper as receiver, \<^verbatim>\<open>Reflect.set\<close> ends in the target's own
  DefineOwnProperty, since the handler has no \<^verbatim>\<open>defineProperty\<close> trap.
\<close>

function obj_set :: "state \<Rightarrow> nat \<Rightarrow> key \<Rightarrow> val \<Rightarrow> state" where
  "obj_set s x k v =
     (if length (heap s) \<le> x then s
      else (case heap s ! x of
        Plain ps arr \<Rightarrow> s\<lparr>heap := (heap s)[x := raw_set ps arr k v]\<rparr>
      | Proxy target isArray \<Rightarrow>
          (if \<not> target < x then s
           else (case obj_get s target k of
                   (s1, oldValue) \<Rightarrow>
                     (let s2 = obj_set s1 target k v
                      in if strict_neq oldValue v then trigger s2 target k else s2)))))"
  by pat_completeness auto
termination
  by (relation "measure (\<lambda>(s, x, k, v). x)") auto

declare obj_set.simps [simp del]

text \<open>
  The handler has no \<^verbatim>\<open>deleteProperty\<close> and no \<^verbatim>\<open>has\<close> trap: both internal methods of a
  wrapper are those of its target.
\<close>

function obj_delete :: "state \<Rightarrow> nat \<Rightarrow> key \<Rightarrow> state" where
  "obj_delete s x k =
     (if length (heap s) \<le> x then s
      else (case heap s ! x of
        Plain ps arr \<Rightarrow> s\<lparr>heap := (heap s)[x := raw_delete ps arr k]\<rparr>
      | Proxy target isArray \<Rightarrow>
          (if \<not> target < x then s else obj_delete s target k)))"
  by pat_completeness auto
termination
  by (relation "measure (\<lambda>(s, x, k). x)") auto

declare obj_delete.simps [simp del]

text \<open>The Boolean that the internal method Delete returns.\<close>

function obj_delete_ok :: "state \<Rightarrow> nat \<Rightarrow> key \<Rightarrow> bool" where
  "obj_delete_ok s x k =
     (if length (heap s) \<le> x then True
      else (case heap s ! x of
        Plain ps arr \<Rightarrow> \<not> (arr \<and> k = Str ''length'')
      | Proxy target isArray \<Rightarrow>
          (if \<not> target < x then True else obj_delete_ok s target k)))"
  by pat_completeness auto
termination
  by (relation "measure (\<lambda>(s, x, k). x)") auto

declare obj_delete_ok.simps [simp del]

function obj_has :: "state \<Rightarrow> nat \<Rightarrow> key \<Rightarrow> bool" where
  "obj_has s x k =
     (if length (heap s) \<le> x then False
      else (case heap s ! x of
        Plain ps arr \<Rightarrow> ps k \<noteq> None
      | Proxy target isArray \<Rightarrow>
          (if \<not> target < x then False else obj_has s target k)))"
  by pat_completeness auto
termination
  by (relation "measure (\<lambda>(s, x, k). x)") auto

declare obj_has.simps [simp del]

section \<open>Instrumented array methods\<close>

primrec run_native :: "nprog \<Rightarrow> nat \<Rightarrow> state \<Rightarrow> state \<times> val completion" where
  "run_native (NDone v) this s = (s, Normal v)"
| "run_native NThrow this s = (s, Throw TypeError)"
| "run_native (NGet k f) this s = (case obj_get s this k of (s1, v) \<Rightarrow> run_native (f v) this s1)"
| "run_native (NSet k v n) this s = run_native n this (obj_set s this k v)"
| "run_native (NDelete k n) this s =
     (if obj_delete_ok s this k then run_native n this (obj_delete s this k)
      else (s, Throw TypeError))"
| "run_native (NHas k f) this s = run_native (f (obj_has s this k)) this s"

text \<open>
  The function stored at \<^verbatim>\<open>arrayInstrumentations[method]\<close>, called with \<^verbatim>\<open>this\<close>. The source
  has no \<^verbatim>\<open>try\<close> here: when the library method throws, the statements after it do not run.
\<close>

definition arrayInstrumentation :: "string \<Rightarrow> nprog \<Rightarrow> nat \<Rightarrow> state \<Rightarrow> state \<times> val completion" where
  "arrayInstrumentation mname native this s =
     (let prevEffect = activeEffect s;
          s1 = s\<lparr>activeEffect := None\<rparr>
      in (case run_native native this s1 of
            (s2, Throw e) \<Rightarrow> (s2, Throw e)
          | (s2, Normal result) \<Rightarrow>
              (let s3 = s2\<lparr>activeEffect := prevEffect\<rparr>;
                   s4 = trigger s3 this (Str mname);
                   s5 = trigger s4 this (Str ''length'');
                   s6 = (case proxyParentMap s5 this of
                           Some (parent, k) \<Rightarrow> trigger s5 parent k
                         | None \<Rightarrow> s5)
               in (s6, Normal result))))"

text \<open>
  The method call \<^verbatim>\<open>x.m(...)\<close>: read the property \<open>m\<close> of \<open>x\<close>, then call what was read with
  \<^verbatim>\<open>this = x\<close>. An array that is not wrapped finds the library method on its prototype.
\<close>

definition call_method :: "state \<Rightarrow> nat \<Rightarrow> method \<Rightarrow> nprog \<Rightarrow> state \<times> val completion" where
  "call_method s this m native =
     (case obj_get s this (Str (method_name m)) of
        (s1, f) \<Rightarrow>
          (case f of
             VInstr n \<Rightarrow> arrayInstrumentation n native this s1
           | VUndef \<Rightarrow> (if Array_isArray s1 this then run_native native this s1
                        else (s1, Throw TypeError))
           | _ \<Rightarrow> (s1, Throw TypeError)))"

section \<open>Free-standing effects\<close>

definition remove_dep :: "state \<Rightarrow> nat \<Rightarrow> key \<Rightarrow> nat \<Rightarrow> state" where
  "remove_dep s t k e =
     (case targetMap s t of
        None \<Rightarrow> s
      | Some depsMap \<Rightarrow>
          (case depsMap k of
             None \<Rightarrow> s
           | Some targetDeps \<Rightarrow>
               s\<lparr>targetMap := (targetMap s)(t \<mapsto> depsMap(k \<mapsto> set_delete e targetDeps))\<rparr>))"

text \<open>The closure \<^verbatim>\<open>cleanup\<close> of \<^verbatim>\<open>effect\<close>, for the subscriber \<open>e\<close>.\<close>

definition cleanup :: "state \<Rightarrow> nat \<Rightarrow> state" where
  "cleanup s e =
     (case effectDepsMap s e of
        None \<Rightarrow> s
      | Some ds \<Rightarrow>
          (let s1 = foldl (\<lambda>s' (t, k). remove_dep s' t k e) s ds
           in s1\<lparr>effectDepsMap := (effectDepsMap s1)(e \<mapsto> [])\<rparr>))"

text \<open>
  The closure \<^verbatim>\<open>execute\<close> of \<^verbatim>\<open>effect(fn)\<close>, with \<open>fn\<close> as a parameter; the first line is the
  log entry. The \<^verbatim>\<open>finally\<close> block runs on both completions.
\<close>

definition execute_with ::
  "(state \<Rightarrow> state \<times> unit completion) \<Rightarrow> nat \<Rightarrow> state \<Rightarrow> state \<times> unit completion" where
  "execute_with fn e s =
     (let s0 = s\<lparr>runs := runs s @ [e]\<rparr>;
          s1 = cleanup s0 e;
          s2 = s1\<lparr>activeEffect := Some e\<rparr>
      in (case fn s2 of (s3, r) \<Rightarrow> (s3\<lparr>activeEffect := None\<rparr>, r)))"

text \<open>The disposer that \<^verbatim>\<open>effect\<close> returns.\<close>

definition dispose :: "state \<Rightarrow> nat \<Rightarrow> state" where
  "dispose s e = (let s1 = cleanup s e in s1\<lparr>effectDepsMap := (effectDepsMap s1)(e := None)\<rparr>)"

section \<open>Scoped effects: registration\<close>

definition createEffect :: "state \<Rightarrow> cmd list \<times> cmd list option \<Rightarrow> error + state" where
  "createEffect s fn =
     (case activeComponentEffects s of
        None \<Rightarrow> Inl UsageError
      | Some effects \<Rightarrow> Inr (s\<lparr>activeComponentEffects := Some (effects @ [fn])\<rparr>))"

section \<open>Running caller code\<close>

fun eval_path :: "state \<Rightarrow> val \<Rightarrow> key list \<Rightarrow> state \<times> val completion" where
  "eval_path s v [] = (s, Normal v)"
| "eval_path s v (k # ks) =
     (case v of
        VRef x \<Rightarrow> (case obj_get s x k of (s1, v1) \<Rightarrow> eval_path s1 v1 ks)
      | VUndef \<Rightarrow> (s, Throw TypeError)
      | VNull \<Rightarrow> (s, Throw TypeError)
      | _ \<Rightarrow> eval_path s VUndef ks)"

fun exec_cmd :: "cmd \<Rightarrow> state \<Rightarrow> state \<times> unit completion"
  and exec_cmds :: "cmd list \<Rightarrow> state \<Rightarrow> state \<times> unit completion" where
  "exec_cmd (Get x ks) s =
     (case eval_path s (VRef x) ks of
        (s1, Normal _) \<Rightarrow> (s1, Normal ())
      | (s1, Throw e) \<Rightarrow> (s1, Throw e))"
| "exec_cmd (Put x ks k v) s =
     (case eval_path s (VRef x) ks of
        (s1, Normal (VRef b)) \<Rightarrow> (obj_set s1 b k v, Normal ())
      | (s1, Normal _) \<Rightarrow> (s1, Throw TypeError)
      | (s1, Throw e) \<Rightarrow> (s1, Throw e))"
| "exec_cmd (Delete x ks k) s =
     (case eval_path s (VRef x) ks of
        (s1, Normal (VRef b)) \<Rightarrow>
          (if obj_delete_ok s1 b k then (obj_delete s1 b k, Normal ()) else (s1, Throw TypeError))
      | (s1, Normal _) \<Rightarrow> (s1, Throw TypeError)
      | (s1, Throw e) \<Rightarrow> (s1, Throw e))"
| "exec_cmd (Call x ks m native) s =
     (case eval_path s (VRef x) ks of
        (s1, Normal (VRef b)) \<Rightarrow>
          (case call_method s1 b m native of
             (s2, Normal _) \<Rightarrow> (s2, Normal ())
           | (s2, Throw e) \<Rightarrow> (s2, Throw e))
      | (s1, Normal _) \<Rightarrow> (s1, Throw TypeError)
      | (s1, Throw e) \<Rightarrow> (s1, Throw e))"
| "exec_cmd (IfEq x ks v a b) s =
     (case eval_path s (VRef x) ks of
        (s1, Normal w) \<Rightarrow> (if \<not> strict_neq w v then exec_cmds a s1 else exec_cmds b s1)
      | (s1, Throw e) \<Rightarrow> (s1, Throw e))"
| "exec_cmd (Effect body) s =
     (let execute = length (subs s);
          s1 = s\<lparr>subs := subs s @ [Free body]\<rparr>
      in execute_with (\<lambda>s'. exec_cmds body s') execute s1)"
| "exec_cmd (Dispose e) s =
     (if e < length (subs s)
      then (case subs s ! e of Free _ \<Rightarrow> (dispose s e, Normal ()) | Scoped _ _ \<Rightarrow> (s, Normal ()))
      else (s, Normal ()))"
| "exec_cmd (CreateEffect body ret) s =
     (case createEffect s (body, ret) of
        Inl err \<Rightarrow> (s, Throw err)
      | Inr s1 \<Rightarrow> (s1, Normal ()))"
| "exec_cmd (Wrap x parent k) s = (fst (createState s x parent k), Normal ())"
| "exec_cmd Raise s = (s, Throw UserError)"
| "exec_cmds [] s = (s, Normal ())"
| "exec_cmds (c # cs) s =
     (case exec_cmd c s of
        (s1, Normal _) \<Rightarrow> exec_cmds cs s1
      | (s1, Throw e) \<Rightarrow> (s1, Throw e))"

text \<open>\<^verbatim>\<open>effect(fn)\<close> and the \<^verbatim>\<open>execute\<close> closure of an existing subscriber.\<close>

definition effect :: "state \<Rightarrow> cmd list \<Rightarrow> state \<times> unit completion" where
  "effect s body = exec_cmd (Effect body) s"

definition execute :: "state \<Rightarrow> nat \<Rightarrow> cmd list \<Rightarrow> state \<times> unit completion" where
  "execute s e body = execute_with (exec_cmds body) e s"

section \<open>Scoped effects: mounting and re-running\<close>

text \<open>One step of the loop that subscribes the captured dependencies.\<close>

definition subscribe :: "state \<Rightarrow> nat \<Rightarrow> key \<Rightarrow> nat \<Rightarrow> state" where
  "subscribe s t k r =
     (let depsMap = (case targetMap s t of None \<Rightarrow> (\<lambda>_. None) | Some m \<Rightarrow> m);
          targetDeps = (case depsMap k of None \<Rightarrow> [] | Some d \<Rightarrow> d)
      in s\<lparr>targetMap := (targetMap s)(t \<mapsto> depsMap(k \<mapsto> set_add r targetDeps))\<rparr>)"

text \<open>
  \<^verbatim>\<open>reactiveEffectFn\<close>, which the host calls when it mounts the component. It makes a new
  \<^verbatim>\<open>effectRunner\<close> closure and returns the closure that unmounts it; both are named by the
  runner's index.
\<close>

definition reactiveEffectFn ::
  "state \<Rightarrow> cmd list \<times> cmd list option \<Rightarrow> state \<times> nat completion" where
  "reactiveEffectFn s fn =
     (case fn of
        (body, ret) \<Rightarrow>
          (let effectRunner = length (subs s);
               s0 = s\<lparr>subs := subs s @ [Scoped body ret],
                      runner_cleanup := (runner_cleanup s)(effectRunner := None),
                      runner_tracked := (runner_tracked s)(effectRunner := [])\<rparr>;
               prevEffect = activeEffect s0;
               s1 = s0\<lparr>activeEffect := Some effectRunner\<rparr>
           in (case exec_cmds body s1 of
                 (s2, Throw e) \<Rightarrow> (s2\<lparr>activeEffect := prevEffect\<rparr>, Throw e)
               | (s2, Normal _) \<Rightarrow>
                   (let s3 = s2\<lparr>runner_cleanup := (runner_cleanup s2)(effectRunner := ret)\<rparr>;
                        s4 = (case effectDepsMap s3 effectRunner of
                                None \<Rightarrow> s3
                              | Some ds \<Rightarrow>
                                  s3\<lparr>runner_tracked := (runner_tracked s3)(effectRunner := ds)\<rparr>);
                        s5 = s4\<lparr>activeEffect := prevEffect\<rparr>;
                        s6 = foldl (\<lambda>s' (t, k). subscribe s' t k effectRunner) s5
                               (runner_tracked s5 effectRunner)
                    in (s6, Normal effectRunner)))))"

text \<open>The closure \<^verbatim>\<open>effectRunner\<close>; the first line is the log entry.\<close>

definition effectRunner :: "state \<Rightarrow> nat \<Rightarrow> cmd list \<Rightarrow> cmd list option \<Rightarrow> state \<times> unit completion" where
  "effectRunner s r body ret =
     (let s0 = s\<lparr>runs := runs s @ [r]\<rparr>
      in (case (case runner_cleanup s0 r of
                  Some c \<Rightarrow> exec_cmds c s0
                | None \<Rightarrow> (s0, Normal ())) of
            (s1, Throw e) \<Rightarrow> (s1, Throw e)
          | (s1, Normal _) \<Rightarrow>
              (case exec_cmds body s1 of
                 (s2, Throw e) \<Rightarrow> (s2, Throw e)
               | (s2, Normal _) \<Rightarrow>
                   (s2\<lparr>runner_cleanup := (runner_cleanup s2)(r := ret)\<rparr>, Normal ()))))"

text \<open>The closure that \<^verbatim>\<open>reactiveEffectFn\<close> returns, called when the component unmounts.\<close>

definition unmount :: "state \<Rightarrow> nat \<Rightarrow> state \<times> unit completion" where
  "unmount s r =
     (case (case runner_cleanup s r of
              Some c \<Rightarrow> exec_cmds c s
            | None \<Rightarrow> (s, Normal ())) of
        (s1, Throw e) \<Rightarrow> (s1, Throw e)
      | (s1, Normal _) \<Rightarrow>
          (let s2 = foldl (\<lambda>s' (t, k). remove_dep s' t k r) s1 (runner_tracked s1 r)
           in (s2\<lparr>effectDepsMap := (effectDepsMap s2)(r := None)\<rparr>, Normal ())))"

section \<open>Flushing the batch\<close>

text \<open>Calling a queued subscriber: the closure it names.\<close>

definition run_subscriber :: "state \<Rightarrow> nat \<Rightarrow> state \<times> unit completion" where
  "run_subscriber s e =
     (if e < length (subs s)
      then (case subs s ! e of
              Free body \<Rightarrow> execute s e body
            | Scoped body ret \<Rightarrow> effectRunner s e body ret)
      else (s, Normal ()))"

text \<open>\<^verbatim>\<open>effects.forEach((effect) => effect())\<close>: an exception ends the loop.\<close>

fun run_effects :: "nat list \<Rightarrow> state \<Rightarrow> state \<times> unit completion" where
  "run_effects [] s = (s, Normal ())"
| "run_effects (e # es) s =
     (case run_subscriber s e of
        (s1, Normal _) \<Rightarrow> run_effects es s1
      | (s1, Throw x) \<Rightarrow> (s1, Throw x))"

definition flushEffects :: "state \<Rightarrow> state \<times> unit completion" where
  "flushEffects s =
     (let s1 = s\<lparr>isFlushPending := False\<rparr>;
          effects = pendingEffects s1;
          s2 = s1\<lparr>pendingEffects := []\<rparr>
      in run_effects effects s2)"

text \<open>One turn of the microtask queue: the oldest queued \<^verbatim>\<open>flushEffects\<close> job runs.\<close>

definition run_microtask :: "state \<Rightarrow> state \<times> unit completion" where
  "run_microtask s =
     (if microtasks s = 0 then (s, Normal ())
      else flushEffects (s\<lparr>microtasks := microtasks s - 1\<rparr>))"

section \<open>The registration context\<close>

text \<open>
  The first render of a component made by \<^verbatim>\<open>reactive\<close>: the registration context is open
  while the caller's setup code runs, and closed in a \<^verbatim>\<open>finally\<close> block. \<open>x\<close> is the fresh copy
  of the props. The result carries the effects registered by the setup code.
\<close>

definition component_setup ::
  "state \<Rightarrow> nat \<Rightarrow> cmd list \<Rightarrow> (state \<times> (cmd list \<times> cmd list option) list) \<times> unit completion" where
  "component_setup s x setup =
     (let s1 = s\<lparr>activeComponentEffects := Some []\<rparr>;
          s2 = fst (createState s1 x None None)
      in (case exec_cmds setup s2 of
            (s3, r) \<Rightarrow>
              ((s3\<lparr>activeComponentEffects := None\<rparr>,
                (case activeComponentEffects s3 of None \<Rightarrow> [] | Some l \<Rightarrow> l)), r)))"

section \<open>The library's \<^verbatim>\<open>push\<close>, \<^verbatim>\<open>pop\<close> and \<^verbatim>\<open>reverse\<close>\<close>

text \<open>
  The steps ECMAScript gives for \<^verbatim>\<open>Array.prototype.push\<close> (Get length; Set each new index;
  Set length), \<^verbatim>\<open>Array.prototype.pop\<close> (Get length; Get and delete the last index; Set
  length) and \<^verbatim>\<open>Array.prototype.reverse\<close> on two elements that are both present.
\<close>

definition to_length :: "val \<Rightarrow> nat" where
  "to_length l = (case l of VNum i \<Rightarrow> nat i | _ \<Rightarrow> 0)"

fun push_items :: "nat \<Rightarrow> val list \<Rightarrow> nprog \<Rightarrow> nprog" where
  "push_items n [] rest = rest"
| "push_items n (a # as) rest = NSet (Idx n) a (push_items (Suc n) as rest)"

definition proto_push :: "val list \<Rightarrow> nprog" where
  "proto_push args =
     NGet (Str ''length'') (\<lambda>l.
       push_items (to_length l) args
         (NSet (Str ''length'') (VNum (int (to_length l + length args)))
            (NDone (VNum (int (to_length l + length args))))))"

definition proto_pop :: nprog where
  "proto_pop =
     NGet (Str ''length'') (\<lambda>l.
       if to_length l = 0 then NSet (Str ''length'') (VNum 0) (NDone VUndef)
       else NGet (Idx (to_length l - 1)) (\<lambda>element.
              NDelete (Idx (to_length l - 1))
                (NSet (Str ''length'') (VNum (int (to_length l - 1))) (NDone element))))"

definition proto_reverse2 :: "nat \<Rightarrow> nprog" where
  "proto_reverse2 this =
     NGet (Str ''length'') (\<lambda>l.
       NHas (Idx 0) (\<lambda>_. NGet (Idx 0) (\<lambda>lower.
         NHas (Idx 1) (\<lambda>_. NGet (Idx 1) (\<lambda>upper.
           NSet (Idx 0) upper (NSet (Idx 1) lower (NDone (VRef this))))))))"

section \<open>The initial state and auxiliary predicates\<close>

text \<open>
  The module-level initialisers: no active subscriber, empty weak maps, an empty pending
  set, no flush pending, no registration context. The heap holds the caller's objects.
\<close>

definition init_state :: "obj list \<Rightarrow> state" where
  "init_state h =
     \<lparr>heap = h, activeEffect = None, targetMap = (\<lambda>_. None), effectDepsMap = (\<lambda>_. None),
      proxyCache = (\<lambda>_. None), proxyParentMap = (\<lambda>_. None), pendingEffects = [],
      isFlushPending = False, microtasks = 0, activeComponentEffects = None, subs = [],
      runner_cleanup = (\<lambda>_. None), runner_tracked = (\<lambda>_. []), runs = []\<rparr>"

text \<open>
  \<open>extends s s'\<close>: \<open>s'\<close> has every object of \<open>s\<close> unchanged (new objects may have been
  allocated) and every cached wrapper of \<open>s\<close>.
\<close>

definition extends :: "state \<Rightarrow> state \<Rightarrow> bool" where
  "extends s s' =
     (length (heap s) \<le> length (heap s') \<and>
      (\<forall>i. i < length (heap s) \<longrightarrow> heap s' ! i = heap s ! i) \<and>
      (\<forall>x p. proxyCache s x = Some p \<longrightarrow> proxyCache s' x = Some p))"

text \<open>Example objects: the record \<^verbatim>\<open>{a: 1}\<close> and the array \<^verbatim>\<open>[1, 2, 3]\<close>.\<close>

definition obj_a1 :: obj where
  "obj_a1 = Plain ((\<lambda>_. None)(Str ''a'' \<mapsto> VNum 1)) False"

definition arr_123 :: obj where
  "arr_123 =
     Plain ((\<lambda>_. None)(Idx 0 \<mapsto> VNum 1, Idx 1 \<mapsto> VNum 2, Idx 2 \<mapsto> VNum 3,
                         Str ''length'' \<mapsto> VNum 3)) True"

text \<open>The object \<^verbatim>\<open>{user: {name: "x"}}\<close>: the outer record at index 0, the inner one at index 1.\<close>

definition heap_nested :: "obj list" where
  "heap_nested =
     [Plain ((\<lambda>_. None)(Str ''user'' \<mapsto> VRef 1)) False,
      Plain ((\<lambda>_. None)(Str ''name'' \<mapsto> VStr ''x'')) False]"

text \<open>\<open>wraps_plain s w t\<close>: \<open>w\<close> is a wrapper and its target \<open>t\<close> is a plain object.\<close>

definition wraps_plain :: "state \<Rightarrow> nat \<Rightarrow> nat \<Rightarrow> bool" where
  "wraps_plain s w t =
     (w < length (heap s) \<and> t < w \<and> (\<exists>a. heap s ! w = Proxy t a) \<and>
      (\<exists>ps arr. heap s ! t = Plain ps arr))"

text \<open>The object \<^verbatim>\<open>{items: [1, 2, 3]}\<close>: the record at index 0, the array at index 1.\<close>

definition heap_items :: "obj list" where
  "heap_items = [Plain ((\<lambda>_. None)(Str ''items'' \<mapsto> VRef 1)) False, arr_123]"

text \<open>The state after \<^verbatim>\<open>const p = createState({a: 1}); effect(() => { p.a })\<close>.\<close>

definition s_tracked_a :: state where
  "s_tracked_a = fst (exec_cmds [Wrap 0 None None, Effect [Get 1 [Str ''a'']]] (init_state [obj_a1]))"

text \<open>
  The state after \<^verbatim>\<open>const a = createState(arr); const p = createState(rec); effect(() => { p.items })\<close>
  for \<^verbatim>\<open>rec = {items: arr}\<close>: the array was wrapped as a root before it was reached through
  \<^verbatim>\<open>rec.items\<close>.
\<close>

definition s_root_first :: state where
  "s_root_first =
     fst (exec_cmds [Wrap 1 None None, Wrap 0 None None, Effect [Get 3 [Str ''items'']]]
            (init_state heap_items))"

text \<open>
  \<open>step_closed R\<close>: the relation \<open>R\<close> between a state and a later state is reflexive and
  transitive and holds across each elementary state change that caller code can cause.
\<close>

definition step_closed :: "(state \<Rightarrow> state \<Rightarrow> bool) \<Rightarrow> bool" where
  "step_closed R =
     ((\<forall>s. R s s) \<and>
      (\<forall>a b c. R a b \<longrightarrow> R b c \<longrightarrow> R a c) \<and>
      (\<forall>s t k. R s (track s t k)) \<and>
      (\<forall>s x pa k. R s (fst (createState s x pa k))) \<and>
      (\<forall>s t k. R s (trigger s t k)) \<and>
      (\<forall>s h. R s (s\<lparr>heap := h\<rparr>)) \<and>
      (\<forall>s a. R s (s\<lparr>activeEffect := a\<rparr>)) \<and>
      (\<forall>s e. R s (cleanup s e)) \<and>
      (\<forall>s e. R s (dispose s e)) \<and>
      (\<forall>s x. R s (s\<lparr>activeComponentEffects := x\<rparr>)) \<and>
      (\<forall>s b. R s (s\<lparr>subs := subs s @ [Free b], runs := runs s @ [length (subs s)]\<rparr>)))"

text \<open>
  \<open>only_new_runs s s'\<close>: from \<open>s\<close> to \<open>s'\<close> closures were only added, and every subscriber
  invocation logged in between is of a closure made in between.
\<close>

definition only_new_runs :: "state \<Rightarrow> state \<Rightarrow> bool" where
  "only_new_runs s s' =
     ((\<exists>zs. subs s' = subs s @ zs) \<and>
      (\<exists>d. runs s' = runs s @ d \<and> (\<forall>e\<in>set d. length (subs s) \<le> e)))"

text \<open>
  \<open>sched_step s s'\<close>: from \<open>s\<close> to \<open>s'\<close> the pending set only grew and stayed free of
  duplicates, and a flush job was queued exactly when the flag went from unset to set,
  which happens only when a subscriber was enqueued.
\<close>

definition sched_step :: "state \<Rightarrow> state \<Rightarrow> bool" where
  "sched_step s s' =
     (set (pendingEffects s) \<subseteq> set (pendingEffects s') \<and>
      (distinct (pendingEffects s) \<longrightarrow> distinct (pendingEffects s')) \<and>
      (if isFlushPending s then isFlushPending s' \<and> microtasks s' = microtasks s
       else if isFlushPending s' then microtasks s' = Suc (microtasks s) \<and> pendingEffects s' \<noteq> []
       else microtasks s' = microtasks s \<and> pendingEffects s' = pendingEffects s))"

text \<open>
  \<open>mirrored s e\<close>: every edge of subscriber \<open>e\<close> in the forward index has its entry in the
  reverse index.
\<close>

definition mirrored :: "state \<Rightarrow> nat \<Rightarrow> bool" where
  "mirrored s e = (\<forall>t k. e \<in> set (deps s t k) \<longrightarrow> (t, k) \<in> set (effectDeps s e))"

definition keeps_mirrored :: "nat \<Rightarrow> state \<Rightarrow> state \<Rightarrow> bool" where
  "keeps_mirrored e s s' = (mirrored s e \<longrightarrow> mirrored s' e)"




text \<open>
  \<open>flush_log s\<close>: the subscriber invocations logged by the flush that starts in \<open>s\<close>.
  \<open>swapped s\<close>: the state in which that flush starts to run the batch.
\<close>

definition flush_log :: "state \<Rightarrow> nat list" where
  "flush_log s = drop (length (runs s)) (runs (fst (flushEffects s)))"

definition swapped :: "state \<Rightarrow> state" where
  "swapped s = s\<lparr>isFlushPending := False, pendingEffects := []\<rparr>"



text \<open>\<open>writes s ws\<close>: the synchronous assignments \<^verbatim>\<open>x[k] = v\<close> of \<open>ws\<close>, in order.\<close>

fun writes :: "state \<Rightarrow> (nat \<times> key \<times> val) list \<Rightarrow> state" where
  "writes s [] = s"
| "writes s ((x, k, v) # ws) = writes (obj_set s x k v) ws"

text \<open>\<open>turn_log s\<close>: the subscriber invocations logged by the next turn of the microtask queue.\<close>

definition turn_log :: "state \<Rightarrow> nat list" where
  "turn_log s = drop (length (runs s)) (runs (fst (run_microtask s)))"

text \<open>
  \<open>ahead_of s e\<close>: the completion of the runs of the subscribers queued ahead of \<open>e\<close> in the
  batch that the next turn flushes.
\<close>

definition ahead_of :: "state \<Rightarrow> nat \<Rightarrow> unit completion" where
  "ahead_of s e =
     snd (run_effects (takeWhile (\<lambda>x. x \<noteq> e) (pendingEffects s))
            (swapped (s\<lparr>microtasks := microtasks s - 1\<rparr>)))"

text \<open>
  The state after \<^verbatim>\<open>const p = createState({a: 1, b: 2, c: 3}); effect(() => { p.a; p.b; p.c })\<close>.
\<close>

definition s_abc :: state where
  "s_abc =
     fst (exec_cmds
            [Wrap 0 None None, Effect [Get 1 [Str ''a''], Get 1 [Str ''b''], Get 1 [Str ''c'']]]
            (init_state
               [Plain ((\<lambda>_. None)(Str ''a'' \<mapsto> VNum 1, Str ''b'' \<mapsto> VNum 2, Str ''c'' \<mapsto> VNum 3))
                  False]))"


text \<open>The state after \<^verbatim>\<open>const a = createState([1, 2, 3]); effect(() => { a.length })\<close>.\<close>

definition s_len :: state where
  "s_len = fst (exec_cmds [Wrap 0 None None, Effect [Get 1 [Str ''length'']]] (init_state [arr_123]))"

text \<open>
  The state after \<^verbatim>\<open>const p = createState({items: [1, 2, 3]}); effect(() => { p.items })\<close>: the
  array is first wrapped by the read of \<^verbatim>\<open>p.items\<close>, with its parent linkage.
\<close>

definition s_items :: state where
  "s_items = fst (exec_cmds [Wrap 0 None None, Effect [Get 2 [Str ''items'']]] (init_state heap_items))"

text \<open>
  The state after
  \<^verbatim>\<open>const p = createState({a: 1}); effect(() => { effect(() => {}); p.a })\<close>.
\<close>

definition s_nested_effect :: state where
  "s_nested_effect =
     fst (exec_cmds [Wrap 0 None None, Effect [Effect [], Get 1 [Str ''a'']]] (init_state [obj_a1]))"

section \<open>Sets as lists\<close>

lemma set_set_add [simp]: "set (set_add x xs) = insert x (set xs)"
  by (auto simp: set_add_def)

lemma distinct_set_add [simp]: "distinct (set_add x xs) = distinct xs"
  by (auto simp: set_add_def)

lemma set_set_delete [simp]: "set (set_delete x xs) = set xs - {x}"
  by (auto simp: set_delete_def)

section \<open>What the scheduler and the graph operations touch\<close>

lemma queueEffect_frame [simp]:
  "heap (queueEffect s e) = heap s"
  "activeEffect (queueEffect s e) = activeEffect s"
  "targetMap (queueEffect s e) = targetMap s"
  "effectDepsMap (queueEffect s e) = effectDepsMap s"
  "proxyCache (queueEffect s e) = proxyCache s"
  "proxyParentMap (queueEffect s e) = proxyParentMap s"
  "activeComponentEffects (queueEffect s e) = activeComponentEffects s"
  "subs (queueEffect s e) = subs s"
  "runner_cleanup (queueEffect s e) = runner_cleanup s"
  "runner_tracked (queueEffect s e) = runner_tracked s"
  "runs (queueEffect s e) = runs s"
  by (simp_all add: queueEffect_def Let_def)

lemma queueEffect_pending [simp]:
  "pendingEffects (queueEffect s e) = set_add e (pendingEffects s)"
  by (simp add: queueEffect_def Let_def)

lemma queueEffect_flag [simp]: "isFlushPending (queueEffect s e)"
  by (simp add: queueEffect_def Let_def)

lemma queueEffect_microtasks:
  "microtasks (queueEffect s e) = (if isFlushPending s then microtasks s else Suc (microtasks s))"
  by (simp add: queueEffect_def Let_def)

lemma foldl_queueEffect_frame [simp]:
  "heap (foldl queueEffect s ds) = heap s"
  "activeEffect (foldl queueEffect s ds) = activeEffect s"
  "targetMap (foldl queueEffect s ds) = targetMap s"
  "effectDepsMap (foldl queueEffect s ds) = effectDepsMap s"
  "proxyCache (foldl queueEffect s ds) = proxyCache s"
  "proxyParentMap (foldl queueEffect s ds) = proxyParentMap s"
  "activeComponentEffects (foldl queueEffect s ds) = activeComponentEffects s"
  "subs (foldl queueEffect s ds) = subs s"
  "runner_cleanup (foldl queueEffect s ds) = runner_cleanup s"
  "runner_tracked (foldl queueEffect s ds) = runner_tracked s"
  "runs (foldl queueEffect s ds) = runs s"
  by (induction ds arbitrary: s; simp)+

lemma foldl_queueEffect_set [simp]:
  "set (pendingEffects (foldl queueEffect s ds)) = set (pendingEffects s) \<union> set ds"
  by (induction ds arbitrary: s) auto

lemma foldl_queueEffect_distinct [simp]:
  "distinct (pendingEffects (foldl queueEffect s ds)) = distinct (pendingEffects s)"
  by (induction ds arbitrary: s) auto

lemma foldl_queueEffect_flag:
  "isFlushPending (foldl queueEffect s ds) = (isFlushPending s \<or> ds \<noteq> [])"
  by (induction ds arbitrary: s) auto

lemma foldl_queueEffect_microtasks:
  "microtasks (foldl queueEffect s ds) =
     (if isFlushPending s \<or> ds = [] then microtasks s else Suc (microtasks s))"
  by (induction ds arbitrary: s) (auto simp: queueEffect_microtasks)

lemma trigger_frame [simp]:
  "heap (trigger s t k) = heap s"
  "activeEffect (trigger s t k) = activeEffect s"
  "targetMap (trigger s t k) = targetMap s"
  "effectDepsMap (trigger s t k) = effectDepsMap s"
  "proxyCache (trigger s t k) = proxyCache s"
  "proxyParentMap (trigger s t k) = proxyParentMap s"
  "activeComponentEffects (trigger s t k) = activeComponentEffects s"
  "subs (trigger s t k) = subs s"
  "runner_cleanup (trigger s t k) = runner_cleanup s"
  "runner_tracked (trigger s t k) = runner_tracked s"
  "runs (trigger s t k) = runs s"
  by (simp_all add: trigger_def split: option.splits)

lemma trigger_pending_set [simp]:
  "set (pendingEffects (trigger s t k)) = set (pendingEffects s) \<union> set (deps s t k)"
  by (simp add: trigger_def deps_def split: option.splits)

lemma trigger_distinct [simp]:
  "distinct (pendingEffects (trigger s t k)) = distinct (pendingEffects s)"
  by (simp add: trigger_def split: option.splits)

lemma trigger_flag:
  "isFlushPending (trigger s t k) = (isFlushPending s \<or> deps s t k \<noteq> [])"
  by (simp add: trigger_def deps_def foldl_queueEffect_flag split: option.splits)

lemma trigger_microtasks:
  "microtasks (trigger s t k) =
     (if isFlushPending s \<or> deps s t k = [] then microtasks s else Suc (microtasks s))"
  by (simp add: trigger_def deps_def foldl_queueEffect_microtasks split: option.splits)

lemma trigger_no_deps: "deps s t k = [] \<Longrightarrow> trigger s t k = s"
  by (auto simp: trigger_def deps_def split: option.splits)

lemma deps_trigger [simp]: "deps (trigger s t k) t' k' = deps s t' k'"
  by (simp add: deps_def)

lemma track_frame [simp]:
  "heap (track s t k) = heap s"
  "activeEffect (track s t k) = activeEffect s"
  "proxyCache (track s t k) = proxyCache s"
  "proxyParentMap (track s t k) = proxyParentMap s"
  "pendingEffects (track s t k) = pendingEffects s"
  "isFlushPending (track s t k) = isFlushPending s"
  "microtasks (track s t k) = microtasks s"
  "activeComponentEffects (track s t k) = activeComponentEffects s"
  "subs (track s t k) = subs s"
  "runner_cleanup (track s t k) = runner_cleanup s"
  "runner_tracked (track s t k) = runner_tracked s"
  "runs (track s t k) = runs s"
  by (simp_all add: track_def Let_def split: option.splits)

lemma track_inactive: "activeEffect s = None \<Longrightarrow> track s t k = s"
  by (simp add: track_def)

lemma createState_frame:
  assumes "createState s x pa k = (s', p)"
  shows "activeEffect s' = activeEffect s" "targetMap s' = targetMap s"
    "effectDepsMap s' = effectDepsMap s" "pendingEffects s' = pendingEffects s"
    "isFlushPending s' = isFlushPending s" "microtasks s' = microtasks s"
    "activeComponentEffects s' = activeComponentEffects s" "subs s' = subs s"
    "runner_cleanup s' = runner_cleanup s" "runner_tracked s' = runner_tracked s"
    "runs s' = runs s"
  using assms by (auto simp: createState_def Let_def split: option.splits)

lemma deps_createState: "createState s x pa k = (s', p) \<Longrightarrow> deps s' t k' = deps s t k'"
  by (simp add: deps_def createState_frame)

section \<open>One step of each internal method\<close>

lemma obj_get_out: "length (heap s) \<le> x \<Longrightarrow> obj_get s x k = (s, VUndef)"
  by (subst obj_get.simps) simp

lemma obj_get_plain:
  "x < length (heap s) \<Longrightarrow> heap s ! x = Plain ps arr \<Longrightarrow> obj_get s x k = (s, raw_get ps k)"
  by (subst obj_get.simps) simp

lemma obj_get_proxy:
  "x < length (heap s) \<Longrightarrow> heap s ! x = Proxy t a \<Longrightarrow>
   obj_get s x k =
     (if \<not> t < x then (s, VUndef)
      else if a \<and> arrayInstrumentations k \<noteq> None then (s, the (arrayInstrumentations k))
      else (case obj_get s t k of
              (s1, value) \<Rightarrow>
                (let s2 = track s1 t k
                 in (case value of
                       VRef v \<Rightarrow> (case createState s2 v (Some t) (Some k) of
                                    (s3, p) \<Rightarrow> (s3, VRef p))
                     | _ \<Rightarrow> (s2, value)))))"
  by (subst obj_get.simps) simp

lemma obj_get_proxy_instr:
  "x < length (heap s) \<Longrightarrow> heap s ! x = Proxy t True \<Longrightarrow> t < x \<Longrightarrow>
   arrayInstrumentations k = Some f \<Longrightarrow> obj_get s x k = (s, f)"
  by (simp add: obj_get_proxy)

lemma obj_get_proxy_read:
  "x < length (heap s) \<Longrightarrow> heap s ! x = Proxy t a \<Longrightarrow> t < x \<Longrightarrow>
   \<not> (a \<and> arrayInstrumentations k \<noteq> None) \<Longrightarrow> obj_get s t k = (s1, w) \<Longrightarrow>
   obj_get s x k =
     (case w of
        VRef v \<Rightarrow> (case createState (track s1 t k) v (Some t) (Some k) of
                     (s3, p) \<Rightarrow> (s3, VRef p))
      | _ \<Rightarrow> (track s1 t k, w))"
  by (auto simp add: obj_get_proxy Let_def)

lemma obj_set_out: "length (heap s) \<le> x \<Longrightarrow> obj_set s x k v = s"
  by (subst obj_set.simps) simp

lemma obj_set_plain:
  "x < length (heap s) \<Longrightarrow> heap s ! x = Plain ps arr \<Longrightarrow>
   obj_set s x k v = s\<lparr>heap := (heap s)[x := raw_set ps arr k v]\<rparr>"
  by (subst obj_set.simps) simp

lemma obj_set_proxy:
  "x < length (heap s) \<Longrightarrow> heap s ! x = Proxy t a \<Longrightarrow>
   obj_set s x k v =
     (if \<not> t < x then s
      else (case obj_get s t k of
              (s1, oldValue) \<Rightarrow>
                (let s2 = obj_set s1 t k v
                 in if strict_neq oldValue v then trigger s2 t k else s2)))"
  by (subst obj_set.simps) simp

lemma obj_delete_out: "length (heap s) \<le> x \<Longrightarrow> obj_delete s x k = s"
  by (subst obj_delete.simps) simp

lemma obj_delete_plain:
  "x < length (heap s) \<Longrightarrow> heap s ! x = Plain ps arr \<Longrightarrow>
   obj_delete s x k = s\<lparr>heap := (heap s)[x := raw_delete ps arr k]\<rparr>"
  by (subst obj_delete.simps) simp

lemma obj_delete_proxy:
  "x < length (heap s) \<Longrightarrow> heap s ! x = Proxy t a \<Longrightarrow>
   obj_delete s x k = (if \<not> t < x then s else obj_delete s t k)"
  by (subst obj_delete.simps) simp

lemma obj_delete_ok_plain:
  "x < length (heap s) \<Longrightarrow> heap s ! x = Plain ps arr \<Longrightarrow>
   obj_delete_ok s x k = (\<not> (arr \<and> k = Str ''length''))"
  by (subst obj_delete_ok.simps) simp

lemma obj_delete_ok_proxy:
  "x < length (heap s) \<Longrightarrow> heap s ! x = Proxy t a \<Longrightarrow>
   obj_delete_ok s x k = (if \<not> t < x then True else obj_delete_ok s t k)"
  by (subst obj_delete_ok.simps) simp

lemma obj_has_plain:
  "x < length (heap s) \<Longrightarrow> heap s ! x = Plain ps arr \<Longrightarrow> obj_has s x k = (ps k \<noteq> None)"
  by (subst obj_has.simps) simp

lemma obj_has_proxy:
  "x < length (heap s) \<Longrightarrow> heap s ! x = Proxy t a \<Longrightarrow>
   obj_has s x k = (if \<not> t < x then False else obj_has s t k)"
  by (subst obj_has.simps) simp

section \<open>Reads and writes through wrappers: a relation kept by every step\<close>

lemma obj_get_rel:
  assumes refl: "\<And>s. R s s"
    and trans: "\<And>a b c. R a b \<Longrightarrow> R b c \<Longrightarrow> R a c"
    and tr: "\<And>s t k. R s (track s t k)"
    and cs: "\<And>s x pa k s' p. createState s x pa k = (s', p) \<Longrightarrow> R s s'"
  shows "obj_get s x k = (s', v) \<Longrightarrow> R s s'"
proof (induction s x k arbitrary: s' v rule: obj_get.induct)
  case (1 s x k)
  show ?case
  proof (cases "length (heap s) \<le> x")
    case True
    with "1.prems" show ?thesis by (simp add: obj_get_out refl)
  next
    case inb: False
    then have lt: "x < length (heap s)" by simp
    show ?thesis
    proof (cases "heap s ! x")
      case (Plain ps arr)
      with lt "1.prems" show ?thesis by (simp add: obj_get_plain refl)
    next
      case (Proxy t a)
      show ?thesis
      proof (cases "t < x \<and> \<not> (a \<and> arrayInstrumentations k \<noteq> None)")
        case False
        with "1.prems" show ?thesis
          by (auto simp: obj_get_proxy[OF lt Proxy] refl split: if_splits)
      next
        case True
        obtain s1 w where g: "obj_get s t k = (s1, w)" by (cases "obj_get s t k")
        from True have tx: "t < x" and c1: "\<not> \<not> t < x"
          and c2: "\<not> (a \<and> arrayInstrumentations k \<noteq> None)" by auto
        note rd = obj_get_proxy_read[OF lt Proxy tx c2 g]
        have r1: "R s s1" using "1.IH"[OF inb Proxy c1 c2 g] .
        have r2: "R s1 (track s1 t k)" by (rule tr)
        show ?thesis
        proof (cases "\<exists>n. w = VRef n")
          case True
          then obtain n where w: "w = VRef n" by blast
          obtain s3 p where c: "createState (track s1 t k) n (Some t) (Some k) = (s3, p)"
            by (cases "createState (track s1 t k) n (Some t) (Some k)")
          have "s' = s3" using "1.prems" w c
            by (simp add: rd)
          with cs[OF c] r1 r2 show ?thesis by (blast intro: trans)
        next
          case False
          have "s' = track s1 t k" using "1.prems" False
            by (auto simp add: rd split: val.splits)
          with r1 r2 show ?thesis by (blast intro: trans)
        qed
      qed
    qed
  qed
qed

lemma obj_set_rel:
  assumes refl: "\<And>s. R s s"
    and trans: "\<And>a b c. R a b \<Longrightarrow> R b c \<Longrightarrow> R a c"
    and tr: "\<And>s t k. R s (track s t k)"
    and cs: "\<And>s x pa k s' p. createState s x pa k = (s', p) \<Longrightarrow> R s s'"
    and tg: "\<And>s t k. R s (trigger s t k)"
    and wr: "\<And>s x ps arr k v. x < length (heap s) \<Longrightarrow> heap s ! x = Plain ps arr \<Longrightarrow>
               R s (s\<lparr>heap := (heap s)[x := raw_set ps arr k v]\<rparr>)"
  shows "R s (obj_set s x k v)"
proof (induction s x k v rule: obj_set.induct)
  case (1 s x k v)
  show ?case
  proof (cases "length (heap s) \<le> x")
    case True
    then show ?thesis by (simp add: obj_set_out refl)
  next
    case inb: False
    then have lt: "x < length (heap s)" by simp
    show ?thesis
    proof (cases "heap s ! x")
      case (Plain ps arr)
      with lt wr[of x s ps arr k v] show ?thesis by (simp add: obj_set_plain)
    next
      case (Proxy t a)
      show ?thesis
      proof (cases "t < x")
        case False
        then show ?thesis by (simp add: obj_set_proxy[OF lt Proxy] refl)
      next
        case True
        obtain s1 old where g: "obj_get s t k = (s1, old)" by (cases "obj_get s t k")
        have c1: "\<not> \<not> t < x" using True by simp
        have r1: "R s s1" using obj_get_rel[of R, OF refl trans tr cs g] .
        have r2: "R s1 (obj_set s1 t k v)" using "1.IH"[OF inb Proxy c1 g[symmetric]] .
        have r3: "R (obj_set s1 t k v) (trigger (obj_set s1 t k v) t k)" by (rule tg)
        have "obj_set s x k v = (if strict_neq old v then trigger (obj_set s1 t k v) t k else obj_set s1 t k v)"
          using True g by (simp add: obj_set_proxy[OF lt Proxy] Let_def)
        with r1 r2 r3 show ?thesis by (auto intro: trans)
      qed
    qed
  qed
qed

section \<open>Wrapping\<close>

lemma createState_cached: "proxyCache s x = Some p \<Longrightarrow> createState s x pa k = (s, p)"
  by (simp add: createState_def)

lemma createState_caches: "createState s x pa k = (s', p) \<Longrightarrow> proxyCache s' x = Some p"
  by (auto simp: createState_def Let_def split: option.splits)

lemma extends_refl [simp]: "extends s s"
  by (simp add: extends_def)

lemma extends_trans: "extends a b \<Longrightarrow> extends b c \<Longrightarrow> extends a c"
  by (auto simp: extends_def)

lemma extends_track [simp]: "extends s (track s t k)"
  by (simp add: extends_def)

lemma extends_createState: "createState s x pa k = (s', p) \<Longrightarrow> extends s s'"
  by (auto simp: createState_def Let_def extends_def nth_append split: option.splits)

lemma obj_get_extends: "obj_get s x k = (s', v) \<Longrightarrow> extends s s'"
  by (rule obj_get_rel[where R = extends])
     (auto intro: extends_trans extends_createState)

lemma obj_get_stable:
  "x < length (heap s) \<Longrightarrow> obj_get s x k = (s1, v) \<Longrightarrow> extends s1 s2 \<Longrightarrow>
   snd (obj_get s2 x k) = v"
proof (induction s x k arbitrary: s1 v s2 rule: obj_get.induct)
  case (1 s x k)
  have lt: "x < length (heap s)" by fact
  have e12: "extends s1 s2" by fact
  have e01: "extends s s1" using obj_get_extends "1.prems"(2) .
  have e02: "extends s s2" using e01 e12 by (rule extends_trans)
  have lt2: "x < length (heap s2)" and same: "heap s2 ! x = heap s ! x"
    using e02 lt by (auto simp: extends_def)
  show ?case
  proof (cases "heap s ! x")
    case (Plain ps arr)
    then show ?thesis using "1.prems"(2) lt lt2 same by (simp add: obj_get_plain)
  next
    case (Proxy t a)
    have P2: "heap s2 ! x = Proxy t a" using same Proxy by simp
    show ?thesis
    proof (cases "t < x \<and> \<not> (a \<and> arrayInstrumentations k \<noteq> None)")
      case False
      then show ?thesis using "1.prems"(2)
        by (auto simp: obj_get_proxy[OF lt Proxy] obj_get_proxy[OF lt2 P2] split: if_splits)
    next
      case True
      then have tx: "t < x" and c2: "\<not> (a \<and> arrayInstrumentations k \<noteq> None)" by auto
      obtain sa w where g: "obj_get s t k = (sa, w)" by (cases "obj_get s t k")
      obtain sb w' where g2: "obj_get s2 t k = (sb, w')" by (cases "obj_get s2 t k")
      note rd = obj_get_proxy_read[OF lt Proxy tx c2 g]
      note rd2 = obj_get_proxy_read[OF lt2 P2 tx c2 g2]
      have tl: "t < length (heap s)" using tx lt by simp
      have inb: "\<not> length (heap s) \<le> x" using lt by simp
      have c1: "\<not> \<not> t < x" using tx by simp
      have ea1: "extends sa s1"
      proof (cases w)
        case (VRef n)
        obtain s3 p where c: "createState (track sa t k) n (Some t) (Some k) = (s3, p)"
          by (cases "createState (track sa t k) n (Some t) (Some k)")
        have "s1 = s3" using "1.prems"(2) rd VRef c by simp
        then show ?thesis using extends_createState[OF c] extends_track[of sa t k]
          by (blast intro: extends_trans)
      qed (use "1.prems"(2) rd in auto)
      have ea2: "extends sa s2" using ea1 e12 by (rule extends_trans)
      have w': "w' = w" using "1.IH"[OF inb Proxy c1 c2 tl g ea2] g2 by simp
      show ?thesis
      proof (cases w)
        case (VRef n)
        obtain s3 p where c: "createState (track sa t k) n (Some t) (Some k) = (s3, p)"
          by (cases "createState (track sa t k) n (Some t) (Some k)")
        have s1: "s1 = s3" and v: "v = VRef p" using "1.prems"(2) rd VRef c by auto
        have "proxyCache s1 n = Some p" using createState_caches[OF c] s1 by simp
        then have "proxyCache s2 n = Some p" using e12 by (auto simp: extends_def)
        then have "proxyCache sb n = Some p" using obj_get_extends[OF g2] by (auto simp: extends_def)
        then have "proxyCache (track sb t k) n = Some p" by simp
        then have "createState (track sb t k) n (Some t) (Some k) = (track sb t k, p)"
          by (rule createState_cached)
        then show ?thesis using rd2 w' VRef v by simp
      qed (use "1.prems"(2) rd rd2 w' in auto)
    qed
  qed
qed

section \<open>Evaluating concrete states\<close>

lemmas eval_defs = init_state_def heap_nested_def heap_items_def obj_a1_def arr_123_def createState_def Array_isArray_def
  Let_def track_def raw_get_def arrayInstrumentations_def instrumented_names_def object_prototype_names_def

section \<open>Deleting through a wrapper\<close>

lemma obj_delete_only_heap: "obj_delete s x k = s\<lparr>heap := heap (obj_delete s x k)\<rparr>"
proof (induction s x k rule: obj_delete.induct)
  case (1 s x k)
  show ?case
  proof (cases "length (heap s) \<le> x")
    case True
    then show ?thesis by (simp add: obj_delete_out)
  next
    case inb: False
    then have lt: "x < length (heap s)" by simp
    show ?thesis
    proof (cases "heap s ! x")
      case (Plain ps arr)
      then show ?thesis using lt by (simp add: obj_delete_plain)
    next
      case (Proxy t a)
      show ?thesis
      proof (cases "t < x")
        case True
        then have "\<not> \<not> t < x" by simp
        from "1.IH"[OF inb Proxy this] show ?thesis
          using True by (simp add: obj_delete_proxy[OF lt Proxy])
      next
        case False
        then show ?thesis by (simp add: obj_delete_proxy[OF lt Proxy])
      qed
    qed
  qed
qed

lemma obj_delete_frame:
  "activeEffect (obj_delete s x k) = activeEffect s"
  "targetMap (obj_delete s x k) = targetMap s"
  "effectDepsMap (obj_delete s x k) = effectDepsMap s"
  "proxyCache (obj_delete s x k) = proxyCache s"
  "proxyParentMap (obj_delete s x k) = proxyParentMap s"
  "pendingEffects (obj_delete s x k) = pendingEffects s"
  "isFlushPending (obj_delete s x k) = isFlushPending s"
  "microtasks (obj_delete s x k) = microtasks s"
  "activeComponentEffects (obj_delete s x k) = activeComponentEffects s"
  "subs (obj_delete s x k) = subs s"
  "runner_cleanup (obj_delete s x k) = runner_cleanup s"
  "runner_tracked (obj_delete s x k) = runner_tracked s"
  "runs (obj_delete s x k) = runs s"
  by (subst obj_delete_only_heap, simp)+

lemma obj_delete_wrapper:
  assumes "wraps_plain s w t"
  shows "obj_delete s w k = s\<lparr>heap := (heap s)[t := raw_delete (props (heap s ! t)) (is_arr (heap s ! t)) k]\<rparr>"
proof -
  from assms obtain a ps arr where w: "w < length (heap s)" "t < w" "heap s ! w = Proxy t a"
    "heap s ! t = Plain ps arr" by (auto simp: wraps_plain_def)
  then have "t < length (heap s)" by simp
  then show ?thesis using w by (simp add: obj_delete_proxy[OF w(1,3)] obj_delete_plain)
qed

lemmas exec_defs = execute_with_def cleanup_def remove_dep_def dispose_def createEffect_def
  call_method_def arrayInstrumentation_def trigger_def queueEffect_def set_add_def set_delete_def
  strict_neq_def raw_set_def array_set_def array_length_def raw_delete_def deps_def effectDeps_def
  obj_get.simps obj_set.simps obj_delete.simps obj_delete_ok.simps obj_has.simps

section \<open>The library method running on a wrapper of a plain object\<close>

lemma wrapper_get_untracked:
  assumes wp: "wraps_plain s w t" and na: "activeEffect s = None"
    and g: "obj_get s w k = (s', v)"
  shows "wraps_plain s' w t \<and> activeEffect s' = None \<and> targetMap s' = targetMap s \<and>
         proxyParentMap s' w = proxyParentMap s w \<and> pendingEffects s' = pendingEffects s \<and>
         runs s' = runs s \<and> isFlushPending s' = isFlushPending s \<and> microtasks s' = microtasks s"
proof -
  from wp obtain a ps arr where w: "w < length (heap s)" "t < w" "heap s ! w = Proxy t a"
    "heap s ! t = Plain ps arr" by (auto simp: wraps_plain_def)
  have tl: "t < length (heap s)" using w by simp
  show ?thesis
  proof (cases "a \<and> arrayInstrumentations k \<noteq> None")
    case True
    then have "s' = s" using g w by (auto simp: obj_get_proxy[OF w(1,3)])
    then show ?thesis using wp na by simp
  next
    case False
    note rd = obj_get_proxy_read[OF w(1,3,2) False obj_get_plain[OF tl w(4)]]
    show ?thesis
    proof (cases "raw_get ps k")
      case (VRef n)
      obtain s3 p where c: "createState s n (Some t) (Some k) = (s3, p)"
        by (cases "createState s n (Some t) (Some k)")
      have s': "s' = s3" using g rd VRef c na by (simp add: track_inactive)
      have "wraps_plain s3 w t \<and> proxyParentMap s3 w = proxyParentMap s w"
        using c w tl
        by (auto simp: createState_def Let_def wraps_plain_def nth_append split: option.splits)
      then show ?thesis using s' createState_frame[OF c] na by simp
    next
      case other: VUndef
      have "s' = s" using g rd na by (simp add: other track_inactive)
      then show ?thesis using wp na by simp
    next
      case other: VNull
      have "s' = s" using g rd na by (simp add: other track_inactive)
      then show ?thesis using wp na by simp
    next
      case other: (VBool b)
      have "s' = s" using g rd na by (simp add: other track_inactive)
      then show ?thesis using wp na by simp
    next
      case other: (VNum i)
      have "s' = s" using g rd na by (simp add: other track_inactive)
      then show ?thesis using wp na by simp
    next
      case other: VNaN
      have "s' = s" using g rd na by (simp add: other track_inactive)
      then show ?thesis using wp na by simp
    next
      case other: (VStr x)
      have "s' = s" using g rd na by (simp add: other track_inactive)
      then show ?thesis using wp na by simp
    next
      case other: (VInstr x)
      have "s' = s" using g rd na by (simp add: other track_inactive)
      then show ?thesis using wp na by simp
    next
      case other: (VProto x)
      have "s' = s" using g rd na by (simp add: other track_inactive)
      then show ?thesis using wp na by simp
    qed
  qed
qed

lemma wrapper_set:
  assumes wp: "wraps_plain s w t"
  shows "wraps_plain (obj_set s w k v) w t \<and>
         activeEffect (obj_set s w k v) = activeEffect s \<and>
         targetMap (obj_set s w k v) = targetMap s \<and>
         proxyParentMap (obj_set s w k v) = proxyParentMap s \<and>
         runs (obj_set s w k v) = runs s \<and>
         set (pendingEffects (obj_set s w k v)) \<subseteq> set (pendingEffects s) \<union> set (deps s t k)"
proof -
  from wp obtain a ps arr where w: "w < length (heap s)" "t < w" "heap s ! w = Proxy t a"
    "heap s ! t = Plain ps arr" by (auto simp: wraps_plain_def)
  have tl: "t < length (heap s)" using w by simp
  let ?s2 = "s\<lparr>heap := (heap s)[t := raw_set ps arr k v]\<rparr>"
  have eq: "obj_set s w k v = (if strict_neq (raw_get ps k) v then trigger ?s2 t k else ?s2)"
    using w tl by (simp add: obj_set_proxy[OF w(1,3)] obj_get_plain[OF tl w(4)] obj_set_plain[OF tl w(4)])
  have wp2: "wraps_plain ?s2 w t" using w tl by (auto simp: wraps_plain_def raw_set_def)
  have d: "deps ?s2 t k = deps s t k" by (simp add: deps_def)
  show ?thesis using eq wp2 d by (auto simp: wraps_plain_def)
qed

lemma wrapper_delete:
  assumes wp: "wraps_plain s w t"
  shows "wraps_plain (obj_delete s w k) w t"
proof -
  from wp obtain a ps arr where w: "w < length (heap s)" "t < w" "heap s ! w = Proxy t a"
    "heap s ! t = Plain ps arr" by (auto simp: wraps_plain_def)
  then show ?thesis
    by (auto simp: obj_delete_wrapper[OF wp] wraps_plain_def raw_delete_def)
qed

lemma run_native_wrapper:
  assumes "run_native n w s = (s', r)" "wraps_plain s w t" "activeEffect s = None"
  shows "wraps_plain s' w t \<and> activeEffect s' = None \<and> targetMap s' = targetMap s \<and>
         proxyParentMap s' w = proxyParentMap s w \<and> runs s' = runs s \<and>
         set (pendingEffects s') \<subseteq> set (pendingEffects s) \<union> (\<Union>k. set (deps s t k))"
  using assms
proof (induction n arbitrary: s)
  case (NDone v)
  then show ?case by auto
next
  case NThrow
  then show ?case by auto
next
  case (NGet k f)
  obtain s1 v where g: "obj_get s w k = (s1, v)" by (cases "obj_get s w k")
  note st = wrapper_get_untracked[OF NGet.prems(2,3) g]
  have wp1: "wraps_plain s1 w t" and na1: "activeEffect s1 = None" using st by simp_all
  have r: "run_native (f v) w s1 = (s', r)" using NGet.prems(1) g by simp
  note ih = NGet.IH[OF rangeI r wp1 na1]
  have tm: "targetMap s1 = targetMap s" using st by simp
  have dd: "deps s1 t k' = deps s t k'" for k' by (simp add: deps_def tm)
  have pe: "pendingEffects s1 = pendingEffects s" using st by simp
  have pp: "proxyParentMap s1 w = proxyParentMap s w" using st by simp
  have rr: "runs s1 = runs s" using st by simp
  show ?case using ih by (simp add: dd pe pp rr tm)
next
  case (NSet k v n)
  let ?s1 = "obj_set s w k v"
  note st = wrapper_set[OF NSet.prems(2), of k v]
  have wp1: "wraps_plain ?s1 w t" using st by simp
  have na1: "activeEffect ?s1 = None" using st NSet.prems(3) by simp
  have r: "run_native n w ?s1 = (s', r)" using NSet.prems(1) by simp
  note ih = NSet.IH[OF r wp1 na1]
  have tm: "targetMap ?s1 = targetMap s" using st by simp
  have dd: "deps ?s1 t k' = deps s t k'" for k' by (simp add: deps_def tm)
  have pp: "proxyParentMap ?s1 w = proxyParentMap s w" using st by simp
  have rr: "runs ?s1 = runs s" using st by simp
  have p1: "set (pendingEffects ?s1) \<subseteq> set (pendingEffects s) \<union> (\<Union>k. set (deps s t k))"
    using st by blast
  have p2: "set (pendingEffects s') \<subseteq> set (pendingEffects ?s1) \<union> (\<Union>k. set (deps s t k))"
    using ih by (simp add: dd)
  have p3: "set (pendingEffects s') \<subseteq> set (pendingEffects s) \<union> (\<Union>k. set (deps s t k))"
    using p1 p2 by blast
  show ?case using ih p3 by (simp add: pp rr tm)
next
  case (NDelete k n)
  show ?case
  proof (cases "obj_delete_ok s w k")
    case False
    then have "s' = s" using NDelete.prems(1) by simp
    then show ?thesis using NDelete.prems(2,3) by auto
  next
    case True
    let ?s1 = "obj_delete s w k"
    have wp1: "wraps_plain ?s1 w t" by (rule wrapper_delete[OF NDelete.prems(2)])
    have na1: "activeEffect ?s1 = None" using NDelete.prems(3) by (simp add: obj_delete_frame)
    have r: "run_native n w ?s1 = (s', r)" using NDelete.prems(1) True by simp
    note ih = NDelete.IH[OF r wp1 na1]
    have dd: "deps ?s1 t k' = deps s t k'" for k' by (simp add: deps_def obj_delete_frame)
    show ?thesis using ih by (simp add: dd obj_delete_frame)
  qed
next
  case (NHas k f)
  have r: "run_native (f (obj_has s w k)) w s = (s', r)" using NHas.prems(1) by simp
  show ?case by (rule NHas.IH[OF rangeI r NHas.prems(2,3)])
qed


lemma instrumented_method_name:
  "arrayInstrumentations (Str (method_name m)) = Some (VInstr (method_name m))"
  by (cases m) (simp_all add: arrayInstrumentations_def instrumented_names_def)

lemma call_method_wrapper_array:
  assumes "wraps_plain s w t" "is_arr (heap s ! w)"
  shows "call_method s w m native = arrayInstrumentation (method_name m) native w s"
proof -
  from assms obtain w: "w < length (heap s)" "t < w" "heap s ! w = Proxy t True"
    by (auto simp: wraps_plain_def)
  have "obj_get s w (Str (method_name m)) = (s, VInstr (method_name m))"
    by (rule obj_get_proxy_instr[OF w(1) w(3) w(2) instrumented_method_name])
  then show ?thesis by (simp add: call_method_def)
qed

lemma run_native_wrapper_facts:
  assumes "run_native n w s = (s', r)" "wraps_plain s w t" "activeEffect s = None"
  shows "wraps_plain s' w t" "activeEffect s' = None" "targetMap s' = targetMap s"
    "proxyParentMap s' w = proxyParentMap s w" "runs s' = runs s"
    "set (pendingEffects s') \<subseteq> set (pendingEffects s) \<union> (\<Union>k. set (deps s t k))"
proof -
  note a = run_native_wrapper[OF assms]
  show "wraps_plain s' w t" by (rule conjunct1[OF a])
  note b = conjunct2[OF a]
  show "activeEffect s' = None" by (rule conjunct1[OF b])
  note c = conjunct2[OF b]
  show "targetMap s' = targetMap s" by (rule conjunct1[OF c])
  note d = conjunct2[OF c]
  show "proxyParentMap s' w = proxyParentMap s w" by (rule conjunct1[OF d])
  note e = conjunct2[OF d]
  show "runs s' = runs s" by (rule conjunct1[OF e])
  show "set (pendingEffects s') \<subseteq> set (pendingEffects s) \<union> (\<Union>k. set (deps s t k))"
    by (rule conjunct2[OF e])
qed

lemma arrayInstrumentation_normal:
  assumes rn: "run_native native w (s\<lparr>activeEffect := None\<rparr>) = (s2, Normal result)"
    and pp: "proxyParentMap s2 w = None"
  shows "arrayInstrumentation mn native w s =
     (trigger (trigger (s2\<lparr>activeEffect := activeEffect s\<rparr>) w (Str mn)) w (Str ''length''),
      Normal result)"
  unfolding arrayInstrumentation_def Let_def rn prod.case completion.case
  by (simp add: pp)

lemma arrayInstrumentation_throw:
  assumes rn: "run_native native w (s\<lparr>activeEffect := None\<rparr>) = (s2, Throw e)"
  shows "arrayInstrumentation mn native w s = (s2, Throw e)"
  unfolding arrayInstrumentation_def Let_def rn prod.case completion.case
  by simp

lemma arrayInstrumentation_wrapper:
  assumes run: "arrayInstrumentation mn native w s = (s', r)"
    and wp: "wraps_plain s w t" and np: "proxyParentMap s w = None"
  shows "set (pendingEffects s') \<subseteq>
           set (pendingEffects s) \<union> (\<Union>k. set (deps s t k)) \<union> (\<Union>k. set (deps s w k))"
proof -
  let ?s1 = "s\<lparr>activeEffect := None\<rparr>"
  obtain s2 res where rn: "run_native native w ?s1 = (s2, res)"
    by (cases "run_native native w ?s1")
  have wp1: "wraps_plain ?s1 w t" using wp by (simp add: wraps_plain_def)
  have na1: "activeEffect ?s1 = None" by simp
  note st = run_native_wrapper_facts[OF rn wp1 na1]
  have dd: "deps ?s1 t k = deps s t k" for k by (simp add: deps_def)
  have pe1: "pendingEffects ?s1 = pendingEffects s" by simp
  have p2: "set (pendingEffects s2) \<subseteq> set (pendingEffects s) \<union> (\<Union>k. set (deps s t k))"
    using st(6) unfolding dd pe1 .
  have tm: "targetMap s2 = targetMap s" using st(3) by simp
  have pp: "proxyParentMap s2 w = None" using st(4) np by simp
  show ?thesis
  proof (cases res)
    case (Throw e)
    have "(s', r) = (s2, Throw e)"
      by (rule trans[OF run[symmetric] arrayInstrumentation_throw[OF rn[unfolded Throw]]])
    then have "s' = s2" by simp
    then show ?thesis by (simp only: subset_trans[OF p2 Un_upper1])
  next
    case (Normal result)
    let ?s3 = "s2\<lparr>activeEffect := activeEffect s\<rparr>"
    let ?s5 = "trigger (trigger ?s3 w (Str mn)) w (Str ''length'')"
    have "(s', r) = (?s5, Normal result)"
      by (rule trans[OF run[symmetric] arrayInstrumentation_normal[OF rn[unfolded Normal] pp]])
    then have s': "s' = ?s5" by simp
    have d3: "deps ?s3 w k = deps s w k" for k by (simp add: deps_def tm)
    have eq: "set (pendingEffects ?s5) =
        set (pendingEffects s2) \<union> set (deps s w (Str mn)) \<union> set (deps s w (Str ''length''))"
      by (simp only: trigger_pending_set deps_trigger d3) simp
    have D: "set (deps s w k') \<subseteq> (\<Union>k. set (deps s w k))" for k'
      by (rule UN_upper) (rule UNIV_I)
    show ?thesis unfolding s' eq
      by (intro Un_least subset_trans[OF p2 Un_upper1] subset_trans[OF D Un_upper2])
  qed
qed

section \<open>Relations kept by caller code\<close>

lemma step_closedD:
  assumes "step_closed R"
  shows "R s s" "R a b \<Longrightarrow> R b c \<Longrightarrow> R a c" "R s (track s t k)"
    "createState s x pa ky = (s', p) \<Longrightarrow> R s s'" "R s (trigger s t k)"
    "R s (s\<lparr>heap := h\<rparr>)" "R s (s\<lparr>activeEffect := ae\<rparr>)" "R s (cleanup s e)"
    "R s (dispose s e)" "R s (s\<lparr>activeComponentEffects := ace\<rparr>)"
    "R s (s\<lparr>subs := subs s @ [Free body], runs := runs s @ [length (subs s)]\<rparr>)"
proof -
  note a = assms[unfolded step_closed_def]
  show "R s s" using a by simp
  show "R a b \<Longrightarrow> R b c \<Longrightarrow> R a c"
  proof -
    assume ab: "R a b" and bc: "R b c"
    from a have "\<forall>a b c. R a b \<longrightarrow> R b c \<longrightarrow> R a c" by (elim conjE)
    then have "R a b \<longrightarrow> R b c \<longrightarrow> R a c" by (elim allE)
    with ab bc show ?thesis by simp
  qed
  show "R s (track s t k)" using a by simp
  show "createState s x pa ky = (s', p) \<Longrightarrow> R s s'"
  proof -
    assume c: "createState s x pa ky = (s', p)"
    have "R s (fst (createState s x pa ky))" using a by simp
    then show ?thesis by (simp add: c)
  qed
  show "R s (trigger s t k)" using a by simp
  show "R s (s\<lparr>heap := h\<rparr>)" using a by simp
  show "R s (s\<lparr>activeEffect := ae\<rparr>)" using a by simp
  show "R s (cleanup s e)" using a by simp
  show "R s (dispose s e)" using a by simp
  show "R s (s\<lparr>activeComponentEffects := ace\<rparr>)" using a by simp
  show "R s (s\<lparr>subs := subs s @ [Free body], runs := runs s @ [length (subs s)]\<rparr>)"
    using a by simp
qed

lemma obj_get_closed:
  assumes sc: "step_closed R" and g: "obj_get s x k = (s', v)"
  shows "R s s'"
  by (rule obj_get_rel[where R = R, OF step_closedD(1)[OF sc] step_closedD(2)[OF sc]
        step_closedD(3)[OF sc] step_closedD(4)[OF sc] g])

lemma obj_set_closed:
  assumes sc: "step_closed R"
  shows "R s (obj_set s x k v)"
  by (rule obj_set_rel[where R = R, OF step_closedD(1)[OF sc] step_closedD(2)[OF sc]
        step_closedD(3)[OF sc] step_closedD(4)[OF sc] step_closedD(5)[OF sc] step_closedD(6)[OF sc]])

lemma obj_delete_closed: "step_closed R \<Longrightarrow> R s (obj_delete s x k)"
  by (subst obj_delete_only_heap) (rule step_closedD)

lemma eval_path_closed:
  "step_closed R \<Longrightarrow> eval_path s v ks = (s', r) \<Longrightarrow> R s s'"
proof (induction s v ks arbitrary: s' r rule: eval_path.induct)
  case (1 s v)
  then show ?case by (simp add: step_closedD)
next
  case (2 s v k ks)
  note sc = "2.prems"(1)
  show ?case
  proof (cases v)
    case (VRef x)
    obtain s1 v1 where g: "obj_get s x k = (s1, v1)" by (cases "obj_get s x k")
    have r1: "R s s1" by (rule obj_get_closed[OF sc g])
    have "eval_path s1 v1 ks = (s', r)" using "2.prems"(2) VRef g by simp
    have ev: "eval_path s1 v1 ks = (s', r)" by fact
    have "R s1 s'" by (rule "2.IH") (use VRef g[symmetric] sc ev in simp_all)
    with r1 show ?thesis by (rule step_closedD(2)[OF sc])
  next
    case VUndef
    then show ?thesis using "2.prems" by (simp add: step_closedD)
  next
    case VNull
    then show ?thesis using "2.prems" by (simp add: step_closedD)
  next
    case (VBool b)
    then show ?thesis using "2.prems" "2.IH" by simp
  next
    case (VNum i)
    then show ?thesis using "2.prems" "2.IH" by simp
  next
    case VNaN
    then show ?thesis using "2.prems" "2.IH" by simp
  next
    case (VStr x)
    then show ?thesis using "2.prems" "2.IH" by simp
  next
    case (VInstr x)
    then show ?thesis using "2.prems" "2.IH" by simp
  next
    case (VProto x)
    then show ?thesis using "2.prems" "2.IH" by simp
  qed
qed

lemma run_native_closed:
  "step_closed R \<Longrightarrow> run_native n this s = (s', r) \<Longrightarrow> R s s'"
proof (induction n arbitrary: s)
  case (NDone v)
  then show ?case by (simp add: step_closedD)
next
  case NThrow
  then show ?case by (simp add: step_closedD)
next
  case (NGet k f)
  obtain s1 v where g: "obj_get s this k = (s1, v)" by (cases "obj_get s this k")
  have "run_native (f v) this s1 = (s', r)" using NGet.prems(2) g by simp
  from obj_get_closed[OF NGet.prems(1) g] NGet.IH[OF rangeI NGet.prems(1) this]
  show ?case by (rule step_closedD(2)[OF NGet.prems(1)])
next
  case (NSet k v n)
  have "run_native n this (obj_set s this k v) = (s', r)" using NSet.prems(2) by simp
  from obj_set_closed[OF NSet.prems(1)] NSet.IH[OF NSet.prems(1) this]
  show ?case by (rule step_closedD(2)[OF NSet.prems(1)])
next
  case (NDelete k n)
  show ?case
  proof (cases "obj_delete_ok s this k")
    case False
    then have "s' = s" using NDelete.prems(2) by simp
    then show ?thesis by (simp add: step_closedD(1)[OF NDelete.prems(1)])
  next
    case True
    have "run_native n this (obj_delete s this k) = (s', r)" using NDelete.prems(2) True by simp
    from obj_delete_closed[OF NDelete.prems(1)] NDelete.IH[OF NDelete.prems(1) this]
    show ?thesis by (rule step_closedD(2)[OF NDelete.prems(1)])
  qed
next
  case (NHas k f)
  have "run_native (f (obj_has s this k)) this s = (s', r)" using NHas.prems(2) by simp
  from NHas.IH[OF rangeI NHas.prems(1) this] show ?case .
qed

lemma arrayInstrumentation_unfold:
  assumes rn: "run_native native w (s\<lparr>activeEffect := None\<rparr>) = (s2, res)"
  shows "arrayInstrumentation mn native w s =
     (case res of
        Throw e \<Rightarrow> (s2, Throw e)
      | Normal result \<Rightarrow>
          (let s5 = trigger (trigger (s2\<lparr>activeEffect := activeEffect s\<rparr>) w (Str mn)) w (Str ''length'')
           in (case proxyParentMap s2 w of
                 Some (parent, k) \<Rightarrow> (trigger s5 parent k, Normal result)
               | None \<Rightarrow> (s5, Normal result))))"
  unfolding arrayInstrumentation_def Let_def rn prod.case
  by (simp split: completion.splits option.splits)

lemma arrayInstrumentation_closed:
  assumes sc: "step_closed R" and run: "arrayInstrumentation mn native w s = (s', r)"
  shows "R s s'"
proof -
  let ?s1 = "s\<lparr>activeEffect := None\<rparr>"
  obtain s2 res where rn: "run_native native w ?s1 = (s2, res)"
    by (cases "run_native native w ?s1")
  note tr = step_closedD(2)[OF sc]
  have r1: "R s ?s1" by (rule step_closedD(7)[OF sc])
  have r2: "R ?s1 s2" by (rule run_native_closed[OF sc rn])
  have r12: "R s s2" by (rule tr[OF r1 r2])
  note u = arrayInstrumentation_unfold[OF rn, of mn]
  show ?thesis
  proof (cases res)
    case (Throw e)
    have "(s', r) = (s2, Throw e)" using run u Throw by simp
    then show ?thesis using r12 by simp
  next
    case (Normal result)
    let ?s3 = "s2\<lparr>activeEffect := activeEffect s\<rparr>"
    let ?s4 = "trigger ?s3 w (Str mn)"
    let ?s5 = "trigger ?s4 w (Str ''length'')"
    have r3: "R s2 ?s3" by (rule step_closedD(7)[OF sc])
    have r4: "R ?s3 ?s4" by (rule step_closedD(5)[OF sc])
    have r5: "R ?s4 ?s5" by (rule step_closedD(5)[OF sc])
    have r15: "R s ?s5" by (rule tr[OF tr[OF tr[OF r12 r3] r4] r5])
    show ?thesis
    proof (cases "proxyParentMap s2 w")
      case None
      have "(s', r) = (?s5, Normal result)" using run u Normal None by (simp add: Let_def)
      then show ?thesis using r15 by simp
    next
      case (Some pk)
      obtain pa k where pk: "pk = (pa, k)" by (cases pk)
      have "(s', r) = (trigger ?s5 pa k, Normal result)"
        using run u Normal Some pk by (simp add: Let_def)
      then have "s' = trigger ?s5 pa k" by simp
      then show ?thesis using tr[OF r15 step_closedD(5)[OF sc, of ?s5 pa k]] by simp
    qed
  qed
qed

lemma call_method_cases:
  assumes "call_method s this m native = (s', r)" "obj_get s this (Str (method_name m)) = (s1, f)"
  shows "s' = s1 \<or> (\<exists>n. arrayInstrumentation n native this s1 = (s', r)) \<or>
         run_native native this s1 = (s', r)"
  using assms by (auto simp: call_method_def split: val.splits if_splits)

lemma call_method_closed:
  assumes sc: "step_closed R" and run: "call_method s this m native = (s', r)"
  shows "R s s'"
proof -
  obtain s1 f where g: "obj_get s this (Str (method_name m)) = (s1, f)"
    by (cases "obj_get s this (Str (method_name m))")
  have r1: "R s s1" by (rule obj_get_closed[OF sc g])
  from call_method_cases[OF run g] have "R s1 s'"
  proof (elim disjE exE)
    assume "s' = s1" then show ?thesis by (simp add: step_closedD(1)[OF sc])
  next
    fix n assume "arrayInstrumentation n native this s1 = (s', r)"
    then show ?thesis by (rule arrayInstrumentation_closed[OF sc])
  next
    assume "run_native native this s1 = (s', r)"
    then show ?thesis by (rule run_native_closed[OF sc])
  qed
  with r1 show ?thesis by (rule step_closedD(2)[OF sc])
qed

lemma exec_Get_cases:
  "exec_cmd (Get x ks) s = (s', r) \<Longrightarrow> eval_path s (VRef x) ks = (s1, r1) \<Longrightarrow> s' = s1"
  by (auto split: completion.splits)

lemma exec_Put_cases:
  "exec_cmd (Put x ks k v) s = (s', r) \<Longrightarrow> eval_path s (VRef x) ks = (s1, r1) \<Longrightarrow>
   s' = s1 \<or> (\<exists>b. s' = obj_set s1 b k v)"
  by (auto split: completion.splits val.splits)

lemma exec_Delete_cases:
  "exec_cmd (Delete x ks k) s = (s', r) \<Longrightarrow> eval_path s (VRef x) ks = (s1, r1) \<Longrightarrow>
   s' = s1 \<or> (\<exists>b. s' = obj_delete s1 b k)"
  by (auto split: completion.splits val.splits if_splits)

lemma exec_Call_cases:
  "exec_cmd (Call x ks m native) s = (s', r) \<Longrightarrow> eval_path s (VRef x) ks = (s1, r1) \<Longrightarrow>
   s' = s1 \<or> (\<exists>b r2. call_method s1 b m native = (s', r2))"
  by (auto split: completion.splits val.splits prod.splits)

lemma exec_IfEq_cases:
  "exec_cmd (IfEq x ks v a b) s = (s', r) \<Longrightarrow> eval_path s (VRef x) ks = (s1, r1) \<Longrightarrow>
   (s' = s1 \<and> (\<exists>e. r1 = Throw e)) \<or>
   (\<exists>w. r1 = Normal w \<and> \<not> strict_neq w v \<and> exec_cmds a s1 = (s', r)) \<or>
   (\<exists>w. r1 = Normal w \<and> strict_neq w v \<and> exec_cmds b s1 = (s', r))"
  by (auto split: completion.splits if_splits)

lemma exec_Effect_unfold:
  "exec_cmd (Effect body) s =
     (case exec_cmds body
             ((cleanup (s\<lparr>subs := subs s @ [Free body], runs := runs s @ [length (subs s)]\<rparr>)
                 (length (subs s)))\<lparr>activeEffect := Some (length (subs s))\<rparr>) of
        (s3, r) \<Rightarrow> (s3\<lparr>activeEffect := None\<rparr>, r))"
  by (simp add: execute_with_def Let_def)

lemma exec_Dispose_cases:
  "exec_cmd (Dispose e) s = (s', r) \<Longrightarrow> s' = s \<or> s' = dispose s e"
  by (auto split: if_splits sub.splits)

lemma exec_CreateEffect_cases:
  "exec_cmd (CreateEffect body ret) s = (s', r) \<Longrightarrow>
   s' = s \<or> (\<exists>x. s' = s\<lparr>activeComponentEffects := x\<rparr>)"
  by (auto simp: createEffect_def split: option.splits)

lemma exec_closed:
  "step_closed R \<Longrightarrow> exec_cmd c s = (s', r) \<Longrightarrow> R s s'"
  "step_closed R \<Longrightarrow> exec_cmds cs s = (s', r) \<Longrightarrow> R s s'"
proof (induction c s and cs s arbitrary: s' r and s' r rule: exec_cmd_exec_cmds.induct)
  case (1 x ks s)
  note sc = "1.prems"(1)
  obtain s1 r1 where ev: "eval_path s (VRef x) ks = (s1, r1)" by (cases "eval_path s (VRef x) ks")
  have "s' = s1" by (rule exec_Get_cases[OF "1.prems"(2) ev])
  then show ?case using eval_path_closed[OF sc ev] by simp
next
  case (2 x ks k v s)
  note sc = "2.prems"(1)
  obtain s1 r1 where ev: "eval_path s (VRef x) ks = (s1, r1)" by (cases "eval_path s (VRef x) ks")
  have r1: "R s s1" by (rule eval_path_closed[OF sc ev])
  from exec_Put_cases[OF "2.prems"(2) ev] have "R s1 s'"
    by (auto simp: step_closedD(1)[OF sc] obj_set_closed[OF sc])
  with r1 show ?case by (rule step_closedD(2)[OF sc])
next
  case (3 x ks k s)
  note sc = "3.prems"(1)
  obtain s1 r1 where ev: "eval_path s (VRef x) ks = (s1, r1)" by (cases "eval_path s (VRef x) ks")
  have r1: "R s s1" by (rule eval_path_closed[OF sc ev])
  from exec_Delete_cases[OF "3.prems"(2) ev] have "R s1 s'"
    by (auto simp: step_closedD(1)[OF sc] obj_delete_closed[OF sc])
  with r1 show ?case by (rule step_closedD(2)[OF sc])
next
  case (4 x ks m native s)
  note sc = "4.prems"(1)
  obtain s1 r1 where ev: "eval_path s (VRef x) ks = (s1, r1)" by (cases "eval_path s (VRef x) ks")
  have r1: "R s s1" by (rule eval_path_closed[OF sc ev])
  from exec_Call_cases[OF "4.prems"(2) ev] have "R s1 s'"
    by (auto simp: step_closedD(1)[OF sc] intro: call_method_closed[OF sc])
  with r1 show ?case by (rule step_closedD(2)[OF sc])
next
  case (5 x ks v a b s)
  note sc = "5.prems"(1)
  obtain s1 r1 where ev: "eval_path s (VRef x) ks = (s1, r1)" by (cases "eval_path s (VRef x) ks")
  have r1: "R s s1" by (rule eval_path_closed[OF sc ev])
  from exec_IfEq_cases[OF "5.prems"(2) ev] have "R s1 s'"
  proof (elim disjE exE conjE)
    assume "s' = s1" then show ?thesis by (simp add: step_closedD(1)[OF sc])
  next
    fix w assume w: "r1 = Normal w" "\<not> strict_neq w v" "exec_cmds a s1 = (s', r)"
    show ?thesis by (rule "5.IH"(1)[OF ev[symmetric] w(1) w(2) sc w(3)])
  next
    fix w assume w: "r1 = Normal w" "strict_neq w v" "exec_cmds b s1 = (s', r)"
    have n: "\<not> \<not> strict_neq w v" using w(2) by simp
    show ?thesis by (rule "5.IH"(2)[OF ev[symmetric] w(1) n sc w(3)])
  qed
  with r1 show ?case by (rule step_closedD(2)[OF sc])
next
  case (6 body s)
  note sc = "6.prems"(1)
  note tr = step_closedD(2)[OF sc]
  let ?e = "length (subs s)"
  let ?sA = "s\<lparr>subs := subs s @ [Free body], runs := runs s @ [?e]\<rparr>"
  let ?sB = "cleanup ?sA ?e"
  let ?sC = "?sB\<lparr>activeEffect := Some ?e\<rparr>"
  obtain s3 r3 where ex: "exec_cmds body ?sC = (s3, r3)" by (cases "exec_cmds body ?sC")
  have s': "s' = s3\<lparr>activeEffect := None\<rparr>"
    using "6.prems"(2) unfolding exec_Effect_unfold ex by simp
  have rA: "R s ?sA" by (rule step_closedD(11)[OF sc])
  have rB: "R ?sA ?sB" by (rule step_closedD(8)[OF sc])
  have rC: "R ?sB ?sC" by (rule step_closedD(7)[OF sc])
  have rD: "R ?sC s3" by (rule "6.IH"[OF refl refl sc ex])
  have rE: "R s3 (s3\<lparr>activeEffect := None\<rparr>)" by (rule step_closedD(7)[OF sc])
  show ?case unfolding s' by (rule tr[OF tr[OF tr[OF tr[OF rA rB] rC] rD] rE])
next
  case (7 e s)
  note sc = "7.prems"(1)
  from exec_Dispose_cases[OF "7.prems"(2)] show ?case
    by (auto simp: step_closedD(1)[OF sc] step_closedD(9)[OF sc])
next
  case (8 body ret s)
  note sc = "8.prems"(1)
  from exec_CreateEffect_cases[OF "8.prems"(2)] show ?case
    by (auto simp: step_closedD(1)[OF sc] step_closedD(10)[OF sc])
next
  case (9 x parent k s)
  note sc = "9.prems"(1)
  obtain s1 p where c: "createState s x parent k = (s1, p)" by (cases "createState s x parent k")
  have "s' = s1" using "9.prems"(2) c by simp
  then show ?case using step_closedD(4)[OF sc c] by simp
next
  case (10 s)
  then show ?case by (simp add: step_closedD(1))
next
  case (11 s)
  then show ?case by (simp add: step_closedD(1))
next
  case (12 c cs s)
  note sc = "12.prems"(1)
  obtain s1 r1 where e1: "exec_cmd c s = (s1, r1)" by (cases "exec_cmd c s")
  have r1: "R s s1" by (rule "12.IH"(1)[OF sc e1])
  show ?case
  proof (cases r1)
    case (Normal u)
    have e2: "exec_cmds cs s1 = (s', r)" using "12.prems"(2) e1 Normal by simp
    have "R s1 s'" by (rule "12.IH"(2)[OF e1[symmetric] Normal sc e2])
    with r1 show ?thesis by (rule step_closedD(2)[OF sc])
  next
    case (Throw e)
    have "s' = s1" using "12.prems"(2) e1 Throw by simp
    then show ?thesis using r1 by simp
  qed
qed

section \<open>Removing edges\<close>

lemma remove_dep_frame [simp]:
  "heap (remove_dep s t k e) = heap s"
  "activeEffect (remove_dep s t k e) = activeEffect s"
  "effectDepsMap (remove_dep s t k e) = effectDepsMap s"
  "proxyCache (remove_dep s t k e) = proxyCache s"
  "proxyParentMap (remove_dep s t k e) = proxyParentMap s"
  "pendingEffects (remove_dep s t k e) = pendingEffects s"
  "isFlushPending (remove_dep s t k e) = isFlushPending s"
  "microtasks (remove_dep s t k e) = microtasks s"
  "activeComponentEffects (remove_dep s t k e) = activeComponentEffects s"
  "subs (remove_dep s t k e) = subs s"
  "runner_cleanup (remove_dep s t k e) = runner_cleanup s"
  "runner_tracked (remove_dep s t k e) = runner_tracked s"
  "runs (remove_dep s t k e) = runs s"
  by (simp_all add: remove_dep_def split: option.splits)

lemma deps_remove_dep:
  "deps (remove_dep s t k e) t' k' =
     (if t' = t \<and> k' = k then set_delete e (deps s t k) else deps s t' k')"
  by (auto simp: remove_dep_def deps_def set_delete_def split: option.splits)

lemma foldl_remove_dep_frame [simp]:
  "heap (foldl (\<lambda>s' (t, k). remove_dep s' t k e) s ds) = heap s"
  "activeEffect (foldl (\<lambda>s' (t, k). remove_dep s' t k e) s ds) = activeEffect s"
  "effectDepsMap (foldl (\<lambda>s' (t, k). remove_dep s' t k e) s ds) = effectDepsMap s"
  "proxyCache (foldl (\<lambda>s' (t, k). remove_dep s' t k e) s ds) = proxyCache s"
  "proxyParentMap (foldl (\<lambda>s' (t, k). remove_dep s' t k e) s ds) = proxyParentMap s"
  "pendingEffects (foldl (\<lambda>s' (t, k). remove_dep s' t k e) s ds) = pendingEffects s"
  "isFlushPending (foldl (\<lambda>s' (t, k). remove_dep s' t k e) s ds) = isFlushPending s"
  "microtasks (foldl (\<lambda>s' (t, k). remove_dep s' t k e) s ds) = microtasks s"
  "activeComponentEffects (foldl (\<lambda>s' (t, k). remove_dep s' t k e) s ds) = activeComponentEffects s"
  "subs (foldl (\<lambda>s' (t, k). remove_dep s' t k e) s ds) = subs s"
  "runner_cleanup (foldl (\<lambda>s' (t, k). remove_dep s' t k e) s ds) = runner_cleanup s"
  "runner_tracked (foldl (\<lambda>s' (t, k). remove_dep s' t k e) s ds) = runner_tracked s"
  "runs (foldl (\<lambda>s' (t, k). remove_dep s' t k e) s ds) = runs s"
  by (induction ds arbitrary: s; simp split: prod.splits)+

lemma set_deps_foldl_remove_dep:
  "set (deps (foldl (\<lambda>s' (t, k). remove_dep s' t k e) s ds) t' k') =
     (if (t', k') \<in> set ds then set (deps s t' k') - {e} else set (deps s t' k'))"
proof (induction ds arbitrary: s)
  case Nil
  then show ?case by simp
next
  case (Cons a ds)
  obtain t k where a: "a = (t, k)" by (cases a)
  show ?case unfolding a by (auto simp: Cons.IH deps_remove_dep)
qed

lemma cleanup_frame [simp]:
  "heap (cleanup s e) = heap s"
  "activeEffect (cleanup s e) = activeEffect s"
  "proxyCache (cleanup s e) = proxyCache s"
  "proxyParentMap (cleanup s e) = proxyParentMap s"
  "pendingEffects (cleanup s e) = pendingEffects s"
  "isFlushPending (cleanup s e) = isFlushPending s"
  "microtasks (cleanup s e) = microtasks s"
  "activeComponentEffects (cleanup s e) = activeComponentEffects s"
  "subs (cleanup s e) = subs s"
  "runner_cleanup (cleanup s e) = runner_cleanup s"
  "runner_tracked (cleanup s e) = runner_tracked s"
  "runs (cleanup s e) = runs s"
  by (simp_all add: cleanup_def Let_def split: option.splits)

lemma set_deps_cleanup:
  "set (deps (cleanup s e) t k) =
     (if (t, k) \<in> set (effectDeps s e) then set (deps s t k) - {e} else set (deps s t k))"
proof (cases "effectDepsMap s e")
  case None
  then show ?thesis by (simp add: cleanup_def effectDeps_def)
next
  case (Some ds)
  let ?f = "foldl (\<lambda>s' (t, k). remove_dep s' t k e) s ds"
  have "deps (cleanup s e) t k = deps ?f t k"
    by (simp add: cleanup_def Some Let_def deps_def)
  then show ?thesis by (simp add: set_deps_foldl_remove_dep effectDeps_def Some)
qed

lemma effectDeps_cleanup:
  "effectDeps (cleanup s e) e' = (if e' = e then [] else effectDeps s e')"
  by (auto simp: cleanup_def effectDeps_def Let_def split: option.splits)

lemma dispose_frame [simp]:
  "heap (dispose s e) = heap s"
  "activeEffect (dispose s e) = activeEffect s"
  "proxyCache (dispose s e) = proxyCache s"
  "proxyParentMap (dispose s e) = proxyParentMap s"
  "pendingEffects (dispose s e) = pendingEffects s"
  "isFlushPending (dispose s e) = isFlushPending s"
  "microtasks (dispose s e) = microtasks s"
  "activeComponentEffects (dispose s e) = activeComponentEffects s"
  "subs (dispose s e) = subs s"
  "runner_cleanup (dispose s e) = runner_cleanup s"
  "runner_tracked (dispose s e) = runner_tracked s"
  "runs (dispose s e) = runs s"
  by (simp_all add: dispose_def Let_def)

lemma deps_dispose: "deps (dispose s e) t k = deps (cleanup s e) t k"
  by (simp add: dispose_def Let_def deps_def)

lemma effectDeps_dispose:
  "effectDeps (dispose s e) e' = (if e' = e then [] else effectDeps s e')"
  using effectDeps_cleanup[of s e e'] by (auto simp: dispose_def effectDeps_def Let_def)

lemma deps_track:
  "deps (track s t k) t' k' =
     (case activeEffect s of
        None \<Rightarrow> deps s t' k'
      | Some a \<Rightarrow> (if t' = t \<and> k' = k then set_add a (deps s t k) else deps s t' k'))"
  by (auto simp: track_def deps_def Let_def split: option.splits)

lemma effectDeps_track:
  "effectDeps (track s t k) e =
     (if activeEffect s = Some e then effectDeps s e @ [(t, k)] else effectDeps s e)"
  by (auto simp: track_def effectDeps_def Let_def split: option.splits)

section \<open>The three relations are kept by every step\<close>

lemma only_new_runs_refl: "only_new_runs s s"
  by (simp add: only_new_runs_def)

lemma only_new_runs_trans:
  assumes "only_new_runs a b" "only_new_runs b c"
  shows "only_new_runs a c"
proof -
  from assms(1) obtain zs d where 1: "subs b = subs a @ zs" "runs b = runs a @ d"
    "\<forall>e\<in>set d. length (subs a) \<le> e" by (auto simp: only_new_runs_def)
  from assms(2) obtain zs' d' where 2: "subs c = subs b @ zs'" "runs c = runs b @ d'"
    "\<forall>e\<in>set d'. length (subs b) \<le> e" by (auto simp: only_new_runs_def)
  have "subs c = subs a @ (zs @ zs')" using 1 2 by simp
  moreover have "runs c = runs a @ (d @ d')" using 1 2 by simp
  moreover have "\<forall>e\<in>set (d @ d'). length (subs a) \<le> e" using 1 2 by auto
  ultimately show ?thesis unfolding only_new_runs_def by blast
qed

lemma only_new_runs_same:
  "subs s' = subs s \<Longrightarrow> runs s' = runs s \<Longrightarrow> only_new_runs s s'"
  by (simp add: only_new_runs_def)

lemma step_closed_only_new_runs: "step_closed only_new_runs"
  unfolding step_closed_def
proof (intro conjI allI impI)
  fix a b c assume "only_new_runs a b" "only_new_runs b c"
  then show "only_new_runs a c" by (rule only_new_runs_trans)
next
  fix s x pa k
  obtain s' p where c: "createState s x pa k = (s', p)" by (cases "createState s x pa k")
  show "only_new_runs s (fst (createState s x pa k))"
    unfolding c by (simp add: only_new_runs_same createState_frame[OF c])
next
  fix s b
  show "only_new_runs s (s\<lparr>subs := subs s @ [Free b], runs := runs s @ [length (subs s)]\<rparr>)"
    by (simp add: only_new_runs_def)
qed (simp_all add: only_new_runs_same)

lemma sched_step_refl: "sched_step s s"
  by (simp add: sched_step_def)

lemma sched_step_trans: "sched_step a b \<Longrightarrow> sched_step b c \<Longrightarrow> sched_step a c"
  unfolding sched_step_def by (auto split: if_splits)

lemma sched_step_same:
  "pendingEffects s' = pendingEffects s \<Longrightarrow> isFlushPending s' = isFlushPending s \<Longrightarrow>
   microtasks s' = microtasks s \<Longrightarrow> sched_step s s'"
  by (simp add: sched_step_def)

lemma sched_step_trigger: "sched_step s (trigger s t k)"
proof (cases "deps s t k = []")
  case True
  then show ?thesis by (simp add: trigger_no_deps sched_step_refl)
next
  case False
  have ne: "set (pendingEffects (trigger s t k)) \<noteq> {}" using False by simp
  have "pendingEffects (trigger s t k) \<noteq> []"
  proof
    assume "pendingEffects (trigger s t k) = []"
    then have "set (pendingEffects (trigger s t k)) = {}" by (simp only: set_empty)
    with ne show False by (rule notE)
  qed
  then show ?thesis using False
    by (simp add: sched_step_def trigger_flag trigger_microtasks)
qed

lemma step_closed_sched_step: "step_closed sched_step"
  unfolding step_closed_def
proof (intro conjI allI impI)
  fix a b c assume "sched_step a b" "sched_step b c"
  then show "sched_step a c" by (rule sched_step_trans)
next
  fix s x pa k
  obtain s' p where c: "createState s x pa k = (s', p)" by (cases "createState s x pa k")
  show "sched_step s (fst (createState s x pa k))"
    unfolding c by (simp add: sched_step_same createState_frame[OF c])
next
  fix s t k show "sched_step s (trigger s t k)" by (rule sched_step_trigger)
qed (simp_all add: sched_step_same)

lemma mirrored_cleanup: "mirrored s e \<Longrightarrow> e \<notin> set (deps (cleanup s e) t k)"
  by (auto simp: mirrored_def set_deps_cleanup)

lemma step_closed_keeps_mirrored: "step_closed (keeps_mirrored e)"
  unfolding step_closed_def
proof (intro conjI allI impI)
  fix s show "keeps_mirrored e s s" by (simp add: keeps_mirrored_def)
next
  fix a b c assume "keeps_mirrored e a b" "keeps_mirrored e b c"
  then show "keeps_mirrored e a c" by (simp add: keeps_mirrored_def)
next
  fix s t k
  show "keeps_mirrored e s (track s t k)"
    unfolding keeps_mirrored_def mirrored_def
    by (auto simp: deps_track effectDeps_track split: option.splits if_splits)
next
  fix s x pa k
  obtain s' p where c: "createState s x pa k = (s', p)" by (cases "createState s x pa k")
  show "keeps_mirrored e s (fst (createState s x pa k))"
    unfolding c by (simp add: keeps_mirrored_def mirrored_def deps_def effectDeps_def createState_frame[OF c])
next
  fix s t k show "keeps_mirrored e s (trigger s t k)"
    by (simp add: keeps_mirrored_def mirrored_def effectDeps_def)
next
  fix s h show "keeps_mirrored e s (s\<lparr>heap := h\<rparr>)"
    by (simp add: keeps_mirrored_def mirrored_def deps_def effectDeps_def)
next
  fix s a show "keeps_mirrored e s (s\<lparr>activeEffect := a\<rparr>)"
    by (simp add: keeps_mirrored_def mirrored_def deps_def effectDeps_def)
next
  fix s e' show "keeps_mirrored e s (cleanup s e')"
    unfolding keeps_mirrored_def
  proof
    assume m: "mirrored s e"
    show "mirrored (cleanup s e') e"
    proof (cases "e' = e")
      case True
      then show ?thesis using mirrored_cleanup[OF m] by (simp add: mirrored_def)
    next
      case False
      have "e \<in> set (deps (cleanup s e') t k) \<Longrightarrow> e \<in> set (deps s t k)" for t k
        by (simp add: set_deps_cleanup split: if_splits)
      then show ?thesis using m False
        by (auto simp: mirrored_def effectDeps_cleanup)
    qed
  qed
next
  fix s e' show "keeps_mirrored e s (dispose s e')"
    unfolding keeps_mirrored_def
  proof
    assume m: "mirrored s e"
    show "mirrored (dispose s e') e"
    proof (cases "e' = e")
      case True
      then show ?thesis using mirrored_cleanup[OF m] by (simp add: mirrored_def deps_dispose)
    next
      case False
      have "e \<in> set (deps (cleanup s e') t k) \<Longrightarrow> e \<in> set (deps s t k)" for t k
        by (simp add: set_deps_cleanup split: if_splits)
      then show ?thesis using m False
        by (auto simp: mirrored_def effectDeps_dispose deps_dispose)
    qed
  qed
next
  fix s x show "keeps_mirrored e s (s\<lparr>activeComponentEffects := x\<rparr>)"
    by (simp add: keeps_mirrored_def mirrored_def deps_def effectDeps_def)
next
  fix s b
  show "keeps_mirrored e s (s\<lparr>subs := subs s @ [Free b], runs := runs s @ [length (subs s)]\<rparr>)"
    by (simp add: keeps_mirrored_def mirrored_def deps_def effectDeps_def)
qed

section \<open>Re-running an effect\<close>

lemma execute_unfold:
  "execute s e body =
     (case exec_cmds body ((cleanup (s\<lparr>runs := runs s @ [e]\<rparr>) e)\<lparr>activeEffect := Some e\<rparr>) of
        (s3, r) \<Rightarrow> (s3\<lparr>activeEffect := None\<rparr>, r))"
  by (simp add: execute_def execute_with_def Let_def)

lemma mirrored_cong:
  "targetMap s' = targetMap s \<Longrightarrow> effectDepsMap s' = effectDepsMap s \<Longrightarrow>
   mirrored s' e = mirrored s e"
  by (simp add: mirrored_def deps_def effectDeps_def)



section \<open>Running queued subscribers\<close>

lemma effectRunner_cases:
  assumes "effectRunner s e body ret = (s', r)"
    and "(case runner_cleanup s e of
            Some c \<Rightarrow> exec_cmds c (s\<lparr>runs := runs s @ [e]\<rparr>)
          | None \<Rightarrow> (s\<lparr>runs := runs s @ [e]\<rparr>, Normal ())) = (s1, r1)"
  shows "s' = s1 \<or>
         (\<exists>s2 r2. exec_cmds body s1 = (s2, r2) \<and>
            (s' = s2 \<or> s' = s2\<lparr>runner_cleanup := (runner_cleanup s2)(e := ret)\<rparr>))"
  using assms
  by (auto simp: effectRunner_def Let_def split: completion.splits prod.splits)

lemma run_subscriber_closed:
  assumes sc: "step_closed R" and rc: "\<And>s x. R s (s\<lparr>runner_cleanup := x\<rparr>)"
    and lt: "e < length (subs s)" and run: "run_subscriber s e = (s', r)"
  shows "R (s\<lparr>runs := runs s @ [e]\<rparr>) s'"
proof -
  note tr = step_closedD(2)[OF sc]
  let ?s0 = "s\<lparr>runs := runs s @ [e]\<rparr>"
  show ?thesis
  proof (cases "subs s ! e")
    case (Free body)
    let ?s1 = "cleanup ?s0 e"
    let ?s2 = "?s1\<lparr>activeEffect := Some e\<rparr>"
    obtain s3 r3 where ex: "exec_cmds body ?s2 = (s3, r3)" by (cases "exec_cmds body ?s2")
    have "run_subscriber s e = execute s e body" using lt Free by (simp add: run_subscriber_def)
    then have s': "s' = s3\<lparr>activeEffect := None\<rparr>" using run by (simp add: execute_unfold ex)
    have r1: "R ?s0 ?s1" by (rule step_closedD(8)[OF sc])
    have r2: "R ?s1 ?s2" by (rule step_closedD(7)[OF sc])
    have r3: "R ?s2 s3" by (rule exec_closed(2)[OF sc ex])
    have r4: "R s3 (s3\<lparr>activeEffect := None\<rparr>)" by (rule step_closedD(7)[OF sc])
    show ?thesis unfolding s' by (rule tr[OF tr[OF tr[OF r1 r2] r3] r4])
  next
    case (Scoped body ret)
    have rs: "effectRunner s e body ret = (s', r)"
      using lt Scoped run by (simp add: run_subscriber_def)
    obtain s1 r1 where c: "(case runner_cleanup s e of
            Some c \<Rightarrow> exec_cmds c ?s0
          | None \<Rightarrow> (?s0, Normal ())) = (s1, r1)"
      by (cases "(case runner_cleanup s e of
            Some c \<Rightarrow> exec_cmds c ?s0
          | None \<Rightarrow> (?s0, Normal ()))")
    have r1: "R ?s0 s1"
    proof (cases "runner_cleanup s e")
      case None
      then show ?thesis using c by (auto simp: step_closedD(1)[OF sc])
    next
      case (Some cl)
      then have "exec_cmds cl ?s0 = (s1, r1)" using c by simp
      then show ?thesis by (rule exec_closed(2)[OF sc])
    qed
    from effectRunner_cases[OF rs c] show ?thesis
    proof (elim disjE exE conjE)
      assume "s' = s1" then show ?thesis using r1 by simp
    next
      fix s2 r2 assume ex: "exec_cmds body s1 = (s2, r2)" and "s' = s2"
      then show ?thesis using tr[OF r1 exec_closed(2)[OF sc ex]] by simp
    next
      fix s2 r2 assume ex: "exec_cmds body s1 = (s2, r2)"
        and s': "s' = s2\<lparr>runner_cleanup := (runner_cleanup s2)(e := ret)\<rparr>"
      show ?thesis unfolding s' by (rule tr[OF tr[OF r1 exec_closed(2)[OF sc ex]] rc])
    qed
  qed
qed

lemma run_subscriber_invalid: "\<not> e < length (subs s) \<Longrightarrow> run_subscriber s e = (s, Normal ())"
  by (simp add: run_subscriber_def)

lemma run_subscriber_runs:
  assumes lt: "e < length (subs s)" and run: "run_subscriber s e = (s', r)"
  shows "\<exists>d zs. runs s' = runs s @ e # d \<and> (\<forall>x\<in>set d. length (subs s) \<le> x) \<and>
           subs s' = subs s @ zs"
proof -
  have "only_new_runs (s\<lparr>runs := runs s @ [e]\<rparr>) s'"
    by (rule run_subscriber_closed[OF step_closed_only_new_runs _ lt run])
       (simp add: only_new_runs_same)
  then show ?thesis by (auto simp: only_new_runs_def)
qed

lemma run_subscriber_sched: "run_subscriber s e = (s', r) \<Longrightarrow> sched_step s s'"
proof (cases "e < length (subs s)")
  case True
  assume run: "run_subscriber s e = (s', r)"
  have "sched_step (s\<lparr>runs := runs s @ [e]\<rparr>) s'"
    by (rule run_subscriber_closed[OF step_closed_sched_step _ True run])
       (simp add: sched_step_same)
  moreover have "sched_step s (s\<lparr>runs := runs s @ [e]\<rparr>)" by (simp add: sched_step_same)
  ultimately show ?thesis by (blast intro: sched_step_trans)
next
  case False
  assume "run_subscriber s e = (s', r)"
  then show ?thesis using False by (simp add: run_subscriber_invalid sched_step_refl)
qed

lemma run_effects_sched: "run_effects es s = (s', r) \<Longrightarrow> sched_step s s'"
proof (induction es arbitrary: s)
  case Nil
  then show ?case by (simp add: sched_step_refl)
next
  case (Cons e es)
  obtain s1 r1 where r1: "run_subscriber s e = (s1, r1)" by (cases "run_subscriber s e")
  note a = run_subscriber_sched[OF r1]
  show ?case
  proof (cases r1)
    case (Normal u)
    then have "run_effects es s1 = (s', r)" using Cons.prems r1 by simp
    from sched_step_trans[OF a Cons.IH[OF this]] show ?thesis .
  next
    case (Throw x)
    then have "s' = s1" using Cons.prems r1 by simp
    then show ?thesis using a by simp
  qed
qed

lemma run_effects_append:
  "run_effects (xs @ ys) s =
     (case run_effects xs s of
        (s1, Normal u) \<Rightarrow> run_effects ys s1
      | (s1, Throw x) \<Rightarrow> (s1, Throw x))"
  by (induction xs arbitrary: s) (auto split: prod.splits completion.splits)

lemma run_effects_runs:
  assumes "run_effects es s = (s', r)" "n \<le> length (subs s)" "\<forall>e\<in>set es. e < n"
  shows "\<exists>d j. runs s' = runs s @ d \<and> filter (\<lambda>x. x < n) d = take j es \<and> j \<le> length es \<and>
           (r = Normal () \<longrightarrow> j = length es) \<and> n \<le> length (subs s')"
  using assms
proof (induction es arbitrary: s)
  case Nil
  then show ?case by simp
next
  case (Cons e es)
  obtain s1 r1 where r1: "run_subscriber s e = (s1, r1)" by (cases "run_subscriber s e")
  have lt: "e < length (subs s)" using Cons.prems by simp
  from run_subscriber_runs[OF lt r1] obtain d1 zs where
    d1: "runs s1 = runs s @ e # d1" "\<forall>x\<in>set d1. length (subs s) \<le> x" "subs s1 = subs s @ zs"
    by blast
  have en: "e < n" using Cons.prems(3) by simp
  have fd: "filter (\<lambda>x. x < n) d1 = []"
    using d1(2) Cons.prems(2) by (auto simp: filter_empty_conv)
  have n1: "n \<le> length (subs s1)" using d1(3) Cons.prems(2) by simp
  show ?case
  proof (cases r1)
    case (Throw x)
    then have "s' = s1" "r = Throw x" using Cons.prems(1) r1 by simp_all
    then have "runs s' = runs s @ (e # d1) \<and> filter (\<lambda>x. x < n) (e # d1) = take 1 (e # es) \<and>
       1 \<le> length (e # es) \<and> (r = Normal () \<longrightarrow> 1 = length (e # es)) \<and> n \<le> length (subs s')"
      using d1(1) en fd n1 by simp
    then show ?thesis by blast
  next
    case (Normal u)
    then have re: "run_effects es s1 = (s', r)" using Cons.prems(1) r1 by simp
    have "\<forall>e\<in>set es. e < n" using Cons.prems(3) by simp
    from Cons.IH[OF re n1 this] obtain d j where
      dj: "runs s' = runs s1 @ d" "filter (\<lambda>x. x < n) d = take j es" "j \<le> length es"
        "r = Normal () \<longrightarrow> j = length es" "n \<le> length (subs s')" by blast
    have "runs s' = runs s @ ((e # d1) @ d) \<and>
       filter (\<lambda>x. x < n) ((e # d1) @ d) = take (Suc j) (e # es) \<and>
       Suc j \<le> length (e # es) \<and> (r = Normal () \<longrightarrow> Suc j = length (e # es)) \<and>
       n \<le> length (subs s')"
      using dj d1(1) en fd by simp
    then show ?thesis by blast
  qed
qed

section \<open>One flush\<close>

lemma flushEffects_unfold: "flushEffects s = run_effects (pendingEffects s) (swapped s)"
  by (simp add: flushEffects_def swapped_def Let_def)

lemma flush_runs:
  assumes "\<forall>e\<in>set (pendingEffects s). e < length (subs s)"
  shows "\<exists>j. runs (fst (flushEffects s)) = runs s @ flush_log s \<and>
           filter (\<lambda>x. x < length (subs s)) (flush_log s) = take j (pendingEffects s) \<and>
           j \<le> length (pendingEffects s) \<and>
           (snd (flushEffects s) = Normal () \<longrightarrow> j = length (pendingEffects s))"
proof -
  obtain s' r where f: "run_effects (pendingEffects s) (swapped s) = (s', r)"
    by (cases "run_effects (pendingEffects s) (swapped s)")
  have n: "length (subs s) \<le> length (subs (swapped s))" by (simp add: swapped_def)
  from run_effects_runs[OF f n assms] obtain d j where
    dj: "runs s' = runs (swapped s) @ d" "filter (\<lambda>x. x < length (subs s)) d = take j (pendingEffects s)"
      "j \<le> length (pendingEffects s)" "r = Normal () \<longrightarrow> j = length (pendingEffects s)" by blast
  have rs: "runs (swapped s) = runs s" by (simp add: swapped_def)
  have fl: "flush_log s = d" by (simp add: flush_log_def flushEffects_unfold f dj(1) rs)
  have "runs (fst (flushEffects s)) = runs s @ flush_log s"
    by (simp add: fl flushEffects_unfold f dj(1) rs)
  then show ?thesis using dj(2,3,4) fl by (auto simp: flushEffects_unfold f)
qed

lemma count_list_filter:
  "P e \<Longrightarrow> count_list (filter P xs) e = count_list xs e"
  by (induction xs) auto

lemma count_list_distinct: "distinct xs \<Longrightarrow> count_list xs e = (if e \<in> set xs then 1 else 0)"
  by (induction xs) auto

lemma count_list_take_le: "count_list (take j xs) e \<le> count_list xs e"
proof -
  have "count_list xs e = count_list (take j xs @ drop j xs) e" by simp
  also have "\<dots> = count_list (take j xs) e + count_list (drop j xs) e"
    by (simp only: count_list_append)
  finally show ?thesis by simp
qed

lemma flush_sched:
  "(if isFlushPending (fst (flushEffects s))
    then pendingEffects (fst (flushEffects s)) \<noteq> [] \<and>
         microtasks (fst (flushEffects s)) = Suc (microtasks s)
    else pendingEffects (fst (flushEffects s)) = [] \<and>
         microtasks (fst (flushEffects s)) = microtasks s) \<and>
   distinct (pendingEffects (fst (flushEffects s)))"
proof -
  obtain s' r where f: "run_effects (pendingEffects s) (swapped s) = (s', r)"
    by (cases "run_effects (pendingEffects s) (swapped s)")
  have e: "fst (flushEffects s) = s'" by (simp add: flushEffects_unfold f)
  have "sched_step (swapped s) s'" by (rule run_effects_sched[OF f])
  then show ?thesis unfolding e
    by (auto simp: sched_step_def swapped_def split: if_splits)
qed

lemma flush_prefix_pending:
  assumes "pendingEffects s = xs @ ys"
  shows "set (pendingEffects (fst (run_effects xs (swapped s)))) \<subseteq>
         set (pendingEffects (fst (flushEffects s)))"
proof -
  obtain s1 r1 where a: "run_effects xs (swapped s) = (s1, r1)"
    by (cases "run_effects xs (swapped s)")
  show ?thesis
  proof (cases r1)
    case (Throw x)
    then show ?thesis by (simp add: flushEffects_unfold assms run_effects_append a)
  next
    case (Normal u)
    obtain s2 r2 where b: "run_effects ys s1 = (s2, r2)" by (cases "run_effects ys s1")
    from run_effects_sched[OF b] have "set (pendingEffects s1) \<subseteq> set (pendingEffects s2)"
      by (simp add: sched_step_def)
    then show ?thesis by (simp add: flushEffects_unfold assms run_effects_append a Normal b)
  qed
qed

lemmas flush_defs = flush_log_def flushEffects_def run_subscriber_def execute_def effectRunner_def

section \<open>Writes\<close>

lemma obj_set_runs_subs: "runs (obj_set s x k v) = runs s \<and> subs (obj_set s x k v) = subs s"
proof (rule obj_set_rel[where R = "\<lambda>a b. runs b = runs a \<and> subs b = subs a"])
  fix s x pa k s' p assume "createState s x pa k = (s', p)"
  then show "runs s' = runs s \<and> subs s' = subs s" by (simp add: createState_frame)
qed simp_all

lemma writes_runs_subs: "runs (writes s ws) = runs s \<and> subs (writes s ws) = subs s"
  by (induction s ws rule: writes.induct) (simp_all add: obj_set_runs_subs)

lemma writes_sched: "sched_step s (writes s ws)"
proof (induction s ws rule: writes.induct)
  case (1 s)
  then show ?case by (simp add: sched_step_refl)
next
  case (2 s x k v ws)
  have "sched_step s (obj_set s x k v)" by (rule obj_set_closed[OF step_closed_sched_step])
  from sched_step_trans[OF this "2.IH"] show ?case by simp
qed


section \<open>Counting the runs of one subscriber\<close>



lemma run_microtask_unfold:
  "0 < microtasks s \<Longrightarrow> run_microtask s = flushEffects (s\<lparr>microtasks := microtasks s - 1\<rparr>)"
  by (simp add: run_microtask_def)

lemma turn_log_flush:
  "0 < microtasks s \<Longrightarrow> turn_log s = flush_log (s\<lparr>microtasks := microtasks s - 1\<rparr>)"
  by (simp add: turn_log_def flush_log_def run_microtask_unfold)

lemma flush_batch:
  assumes "\<forall>e\<in>set (pendingEffects s). e < length (subs s)" and "distinct (pendingEffects s)"
  shows "(\<exists>j\<le>length (pendingEffects s).
            filter (\<lambda>x. x < length (subs s)) (flush_log s) = take j (pendingEffects s)) \<and>
         (\<forall>e<length (subs s). count_list (flush_log s) e \<le> 1) \<and>
         (snd (flushEffects s) = Normal () \<longrightarrow>
            filter (\<lambda>x. x < length (subs s)) (flush_log s) = pendingEffects s \<and>
            (\<forall>e\<in>set (pendingEffects s). count_list (flush_log s) e = 1)) \<and>
         (if isFlushPending (fst (flushEffects s))
          then pendingEffects (fst (flushEffects s)) \<noteq> [] \<and>
               microtasks (fst (flushEffects s)) = Suc (microtasks s)
          else pendingEffects (fst (flushEffects s)) = [] \<and>
               microtasks (fst (flushEffects s)) = microtasks s) \<and>
         distinct (pendingEffects (fst (flushEffects s))) \<and>
         (\<forall>xs ys. pendingEffects s = xs @ ys \<longrightarrow>
            set (pendingEffects (fst (run_effects xs (swapped s))))
              \<subseteq> set (pendingEffects (fst (flushEffects s))))"
proof -
  let ?n = "length (subs s)"
  let ?P = "\<lambda>x. x < ?n"
  from flush_runs[OF assms(1)] obtain j where
    j: "filter ?P (flush_log s) = take j (pendingEffects s)" "j \<le> length (pendingEffects s)"
      "snd (flushEffects s) = Normal () \<longrightarrow> j = length (pendingEffects s)" by blast
  have a: "\<exists>j\<le>length (pendingEffects s). filter ?P (flush_log s) = take j (pendingEffects s)"
    using j(1,2) by blast
  have cnt: "count_list (flush_log s) e = count_list (take j (pendingEffects s)) e" if "e < ?n" for e
    using count_list_filter[of ?P e "flush_log s"] that j(1) by simp
  have b: "\<forall>e<?n. count_list (flush_log s) e \<le> 1"
  proof (intro allI impI)
    fix e assume e: "e < ?n"
    have "count_list (take j (pendingEffects s)) e \<le> count_list (pendingEffects s) e"
      by (rule count_list_take_le)
    also have "\<dots> \<le> 1" by (simp add: count_list_distinct[OF assms(2)])
    finally show "count_list (flush_log s) e \<le> 1" by (simp add: cnt[OF e])
  qed
  have c: "filter ?P (flush_log s) = pendingEffects s \<and>
           (\<forall>e\<in>set (pendingEffects s). count_list (flush_log s) e = 1)"
    if n: "snd (flushEffects s) = Normal ()"
  proof -
    have jl: "j = length (pendingEffects s)" using j(3) n by simp
    have 1: "filter ?P (flush_log s) = pendingEffects s" using j(1) jl by simp
    have "count_list (flush_log s) e = 1" if "e \<in> set (pendingEffects s)" for e
    proof -
      have "e < ?n" using assms(1) that by simp
      from cnt[OF this] show ?thesis using that jl by (simp add: count_list_distinct[OF assms(2)])
    qed
    with 1 show ?thesis by simp
  qed
  have d: "\<forall>xs ys. pendingEffects s = xs @ ys \<longrightarrow>
            set (pendingEffects (fst (run_effects xs (swapped s))))
              \<subseteq> set (pendingEffects (fst (flushEffects s)))"
    by (intro allI impI) (rule flush_prefix_pending)
  have c': "snd (flushEffects s) = Normal () \<longrightarrow>
            filter ?P (flush_log s) = pendingEffects s \<and>
            (\<forall>e\<in>set (pendingEffects s). count_list (flush_log s) e = 1)"
    by (rule impI) (rule c)
  note e = flush_sched[of s]
  show ?thesis by (intro conjI a b c' conjunct1[OF e] conjunct2[OF e] d)
qed

lemmas turn_defs = turn_log_def run_microtask_def ahead_of_def swapped_def

section \<open>The slot around the other evaluations\<close>

lemma subscribe_activeEffect [simp]: "activeEffect (subscribe s t k r) = activeEffect s"
  by (simp add: subscribe_def Let_def)

lemma foldl_subscribe_activeEffect [simp]:
  "activeEffect (foldl (\<lambda>s' (t, k). subscribe s' t k r) s ds) = activeEffect s"
  by (induction ds arbitrary: s) (simp_all split: prod.splits)

lemma reactiveEffectFn_restores: "activeEffect (fst (reactiveEffectFn s fn)) = activeEffect s"
proof -
  obtain body ret where fn: "fn = (body, ret)" by (cases fn)
  let ?r = "length (subs s)"
  let ?s1 = "s\<lparr>subs := subs s @ [Scoped body ret],
                runner_cleanup := (runner_cleanup s)(?r := None),
                runner_tracked := (runner_tracked s)(?r := []),
                activeEffect := Some ?r\<rparr>"
  obtain s2 r2 where ex: "exec_cmds body ?s1 = (s2, r2)" by (cases "exec_cmds body ?s1")
  show ?thesis
    unfolding fn reactiveEffectFn_def Let_def
    by (cases r2) (simp_all add: ex split: option.splits)
qed

lemma arrayInstrumentation_restores:
  "arrayInstrumentation mn native w s = (s', Normal v) \<Longrightarrow> activeEffect s' = activeEffect s"
proof -
  assume run: "arrayInstrumentation mn native w s = (s', Normal v)"
  obtain s2 res where rn: "run_native native w (s\<lparr>activeEffect := None\<rparr>) = (s2, res)"
    by (cases "run_native native w (s\<lparr>activeEffect := None\<rparr>)")
  show ?thesis
    using run unfolding arrayInstrumentation_unfold[OF rn]
    by (auto simp: Let_def split: completion.splits option.splits)
qed

section \<open>Invariants of the states the program reaches\<close>

lemma run_effects_closed:
  assumes sc: "step_closed R" and rc: "\<And>s x. R s (s\<lparr>runner_cleanup := x\<rparr>)"
    and rr: "\<And>s x. R s (s\<lparr>runs := x\<rparr>)"
  shows "run_effects es s = (s', r) \<Longrightarrow> R s s'"
proof (induction es arbitrary: s)
  case Nil
  then show ?case by (simp add: step_closedD(1)[OF sc])
next
  case (Cons e es)
  obtain s1 r1 where r1: "run_subscriber s e = (s1, r1)" by (cases "run_subscriber s e")
  have a: "R s s1"
  proof (cases "e < length (subs s)")
    case True
    from step_closedD(2)[OF sc rr run_subscriber_closed[OF sc rc True r1]] show ?thesis .
  next
    case False
    then have "s1 = s" using r1 by (simp add: run_subscriber_invalid)
    then show ?thesis by (simp add: step_closedD(1)[OF sc])
  qed
  show ?case
  proof (cases r1)
    case (Normal u)
    then have "run_effects es s1 = (s', r)" using Cons.prems r1 by simp
    from step_closedD(2)[OF sc a Cons.IH[OF this]] show ?thesis .
  next
    case (Throw x)
    then have "s' = s1" using Cons.prems r1 by simp
    then show ?thesis using a by simp
  qed
qed

lemma mirrored_flush:
  assumes "mirrored s e"
  shows "mirrored (fst (flushEffects s)) e"
proof -
  obtain s' r where f: "run_effects (pendingEffects s) (swapped s) = (s', r)"
    by (cases "run_effects (pendingEffects s) (swapped s)")
  have m0: "mirrored (swapped s) e"
    using assms mirrored_cong[of "swapped s" s e] by (simp add: swapped_def)
  have "keeps_mirrored e (swapped s) s'"
  proof (rule run_effects_closed[OF step_closed_keeps_mirrored _ _ f])
    fix s x show "keeps_mirrored e s (s\<lparr>runner_cleanup := x\<rparr>)"
      using mirrored_cong[of "s\<lparr>runner_cleanup := x\<rparr>" s e] by (simp add: keeps_mirrored_def)
  next
    fix s x show "keeps_mirrored e s (s\<lparr>runs := x\<rparr>)"
      using mirrored_cong[of "s\<lparr>runs := x\<rparr>" s e] by (simp add: keeps_mirrored_def)
  qed
  then have "mirrored s' e" using m0 by (simp add: keeps_mirrored_def)
  then show ?thesis by (simp add: flushEffects_unfold f)
qed

lemma mirrored_exec:
  assumes "mirrored s e"
  shows "mirrored (fst (exec_cmds cs s)) e"
proof -
  have "keeps_mirrored e s (fst (exec_cmds cs s))"
    by (rule exec_closed(2)[OF step_closed_keeps_mirrored]) (rule prod.collapse[symmetric])
  then show ?thesis using assms by (simp add: keeps_mirrored_def)
qed

lemma distinct_pending_exec:
  assumes "distinct (pendingEffects s)"
  shows "distinct (pendingEffects (fst (exec_cmds cs s)))"
proof -
  have "sched_step s (fst (exec_cmds cs s))"
    by (rule exec_closed(2)[OF step_closed_sched_step]) (rule prod.collapse[symmetric])
  then show ?thesis using assms by (simp add: sched_step_def)
qed

lemma flush_job_queued_exec:
  assumes "isFlushPending s \<longrightarrow> 0 < microtasks s"
  shows "isFlushPending (fst (exec_cmds cs s)) \<longrightarrow> 0 < microtasks (fst (exec_cmds cs s))"
proof -
  have "sched_step s (fst (exec_cmds cs s))"
    by (rule exec_closed(2)[OF step_closed_sched_step]) (rule prod.collapse[symmetric])
  then show ?thesis using assms by (auto simp: sched_step_def split: if_splits)
qed

section \<open>A write through a wrapper of a plain object\<close>



section \<open>The properties of the specification\<close>




text \<open>
  C2 (batching). Any number of synchronous writes, and any trigger, run no subscriber;
  the pending set stays free of duplicates however many edges enqueued a subscriber; at
  most one flush job is added; and the next turn of the microtask queue runs each
  subscriber at most once.
\<close>

theorem batching_at_most_once:
  assumes "distinct (pendingEffects s)"
    and "\<forall>e\<in>set (pendingEffects (writes s ws)). e < length (subs s)"
  shows "runs (writes s ws) = runs s \<and>
         runs (trigger s t k) = runs s \<and>
         distinct (pendingEffects (writes s ws)) \<and>
         microtasks (writes s ws) \<le> Suc (microtasks s) \<and>
         (\<forall>e<length (subs s). count_list (turn_log (writes s ws)) e \<le> 1)"
proof -
  let ?s' = "writes s ws"
  note rs = writes_runs_subs[of s ws]
  have a: "runs ?s' = runs s" using rs by simp
  have ss: "sched_step s ?s'" by (rule writes_sched)
  have c: "distinct (pendingEffects ?s')" using ss assms(1) by (simp add: sched_step_def)
  have d: "microtasks ?s' \<le> Suc (microtasks s)" using ss by (auto simp: sched_step_def split: if_splits)
  have e: "\<forall>e<length (subs s). count_list (turn_log ?s') e \<le> 1"
  proof (cases "0 < microtasks ?s'")
    case False
    then show ?thesis by (simp add: turn_log_def run_microtask_def)
  next
    case True
    let ?m = "?s'\<lparr>microtasks := microtasks ?s' - 1\<rparr>"
    have h1: "\<forall>e\<in>set (pendingEffects ?m). e < length (subs ?m)" using assms(2) rs by simp
    have h2: "distinct (pendingEffects ?m)" using c by simp
    from flush_batch[OF h1 h2]
    have "\<forall>e<length (subs ?m). count_list (flush_log ?m) e \<le> 1" by (elim conjE)
    then show ?thesis using rs by (simp add: turn_log_flush[OF True])
  qed
  show ?thesis by (intro conjI a c d e) simp
qed

theorem batching_at_most_once_witness:
  "distinct (pendingEffects s_abc) \<and>
   pendingEffects (writes s_abc [(1, Str ''a'', VNum 10), (1, Str ''b'', VNum 20), (1, Str ''c'', VNum 30)]) = [0] \<and>
   length (subs s_abc) = 1 \<and>
   runs (writes s_abc [(1, Str ''a'', VNum 10), (1, Str ''b'', VNum 20), (1, Str ''c'', VNum 30)]) = runs s_abc \<and>
   microtasks (writes s_abc [(1, Str ''a'', VNum 10), (1, Str ''b'', VNum 20), (1, Str ''c'', VNum 30)])
     \<le> Suc (microtasks s_abc) \<and>
   count_list (turn_log (writes s_abc [(1, Str ''a'', VNum 10), (1, Str ''b'', VNum 20), (1, Str ''c'', VNum 30)])) 0 \<le> 1 \<and>
   turn_log (writes s_abc [(1, Str ''a'', VNum 10), (1, Str ''b'', VNum 20), (1, Str ''c'', VNum 30)]) = [0]"
proof -
  let ?ws = "[(1, Str ''a'', VNum 10), (1, Str ''b'', VNum 20), (1, Str ''c'', VNum 30)]"
  have h1: "distinct (pendingEffects s_abc)"
    by (simp add: s_abc_def eval_defs exec_defs)
  have p: "pendingEffects (writes s_abc ?ws) = [0]"
    by (simp add: s_abc_def eval_defs exec_defs)
  have l: "length (subs s_abc) = 1"
    by (simp add: s_abc_def eval_defs exec_defs)
  have tl: "turn_log (writes s_abc ?ws) = [0]"
    by (simp add: s_abc_def eval_defs exec_defs flush_defs turn_defs)
  have h2: "\<forall>e\<in>set (pendingEffects (writes s_abc ?ws)). e < length (subs s_abc)"
    unfolding p l by simp
  note t = batching_at_most_once[OF h1 h2, of 0 "Str ''a''"]
  from t have a: "runs (writes s_abc ?ws) = runs s_abc" by (elim conjE)
  from t have b: "microtasks (writes s_abc ?ws) \<le> Suc (microtasks s_abc)" by (elim conjE)
  from t have "\<forall>e<length (subs s_abc). count_list (turn_log (writes s_abc ?ws)) e \<le> 1"
    by (elim conjE)
  then have c: "count_list (turn_log (writes s_abc ?ws)) 0 \<le> 1" by (simp add: l)
  show ?thesis by (intro conjI h1 p l a b c tl)
qed

text \<open>
  C3 (identity stability). A second \<^verbatim>\<open>createState\<close> of the same object, with any parent
  and key, returns the wrapper of the first call and leaves the whole state as it was; and
  a second read of the same property through the same object returns the value of the
  first read, so the same nested wrapper when the property holds an object.
\<close>

theorem wrap_identity_stable:
  "(createState s x pa k = (s1, p) \<longrightarrow> createState s1 x pa' k' = (s1, p)) \<and>
   (y < length (heap r) \<longrightarrow> obj_get r y ky = (r1, v) \<longrightarrow> snd (obj_get r1 y ky) = v)"
proof (intro conjI impI)
  assume "createState s x pa k = (s1, p)"
  then have "proxyCache s1 x = Some p" by (rule createState_caches)
  then show "createState s1 x pa' k' = (s1, p)" by (rule createState_cached)
next
  assume "y < length (heap r)" "obj_get r y ky = (r1, v)"
  then show "snd (obj_get r1 y ky) = v" using obj_get_stable extends_refl by blast
qed

theorem wrap_identity_stable_witness:
  "createState (init_state heap_nested) 0 None None
     = (fst (createState (init_state heap_nested) 0 None None), 2) \<and>
   createState (fst (createState (init_state heap_nested) 0 None None)) 0 (Some 1) (Some (Str ''user''))
     = (fst (createState (init_state heap_nested) 0 None None), 2) \<and>
   2 < length (heap (fst (createState (init_state heap_nested) 0 None None))) \<and>
   snd (obj_get (fst (createState (init_state heap_nested) 0 None None)) 2 (Str ''user'')) = VRef 3 \<and>
   snd (obj_get (fst (obj_get (fst (createState (init_state heap_nested) 0 None None)) 2 (Str ''user'')))
          2 (Str ''user'')) = VRef 3"
proof -
  let ?s = "init_state heap_nested"
  let ?s1 = "fst (createState ?s 0 None None)"
  let ?g = "obj_get ?s1 2 (Str ''user'')"
  have a: "createState ?s 0 None None = (?s1, 2)"
    by (simp add: eval_defs)
  have b: "2 < length (heap ?s1)"
    by (simp add: eval_defs)
  have c: "?g = (fst ?g, VRef 3)"
    by (simp add: eval_defs obj_get.simps)
  note t = wrap_identity_stable[of ?s 0 None None ?s1 2 "Some 1" "Some (Str ''user'')" 2
      ?s1 "Str ''user''" "fst ?g" "VRef 3"]
  from t a have d: "createState ?s1 0 (Some 1) (Some (Str ''user'')) = (?s1, 2)" by blast
  from t b c have e: "snd (obj_get (fst ?g) 2 (Str ''user'')) = VRef 3" by blast
  have f: "snd ?g = VRef 3" by (subst c) simp
  from a d b f e show ?thesis by blast
qed






text \<open>
  C6 (triggers after an instrumented method), evaluated. After \<^verbatim>\<open>a.push(4)\<close> on the wrapper
  of the root array \<^verbatim>\<open>[1, 2, 3]\<close>, the effect tracked on the \<^verbatim>\<open>length\<close> of the target is
  still subscribed and is not pending, and no flush job is queued: the instrumented
  method triggers the keys of \<^verbatim>\<open>this\<close>, the wrapper, while reads are tracked on the target.
  The parent linkage works: after \<^verbatim>\<open>p.items.push(4)\<close> the effect that read \<^verbatim>\<open>p.items\<close> is
  pending.
\<close>

theorem push_misses_length_subscriber:
  "deps s_len 0 (Str ''length'') = [0] \<and>
   heap s_len ! 1 = Proxy 0 True \<and>
   snd (exec_cmd (Call 1 [] Push (proto_push [VNum 4])) s_len) = Normal () \<and>
   raw_get (props (heap (fst (exec_cmd (Call 1 [] Push (proto_push [VNum 4])) s_len)) ! 0)) (Str ''length'')
     = VNum 4 \<and>
   deps (fst (exec_cmd (Call 1 [] Push (proto_push [VNum 4])) s_len)) 0 (Str ''length'') = [0] \<and>
   pendingEffects (fst (exec_cmd (Call 1 [] Push (proto_push [VNum 4])) s_len)) = [] \<and>
   microtasks (fst (exec_cmd (Call 1 [] Push (proto_push [VNum 4])) s_len)) = 0 \<and>
   proxyParentMap s_items 3 = Some (0, Str ''items'') \<and>
   deps s_items 0 (Str ''items'') = [0] \<and>
   pendingEffects (fst (exec_cmd (Call 2 [Str ''items''] Push (proto_push [VNum 4])) s_items)) = [0]"
  by (simp add: s_len_def s_items_def eval_defs exec_defs proto_push_def to_length_def)

text \<open>
  C7 (the active-subscriber slot), evaluated. \<^verbatim>\<open>reactiveEffectFn\<close> restores the slot it
  found, but \<^verbatim>\<open>execute\<close> ends with the slot set to null, whatever it held before: after
  \<^verbatim>\<open>effect(...)\<close> is called inside another effect's body the slot no longer holds the outer subscriber, the outer effect's later read of \<^verbatim>\<open>p.a\<close> is not tracked,
  and \<^verbatim>\<open>p.a = 2\<close> enqueues nothing.
\<close>

theorem nested_effect_clears_slot:
  "activeEffect (fst (exec_cmd (Effect body) s)) = None \<and>
   activeEffect (fst (execute s e body)) = None \<and>
   activeEffect (fst (reactiveEffectFn s fn)) = activeEffect s \<and>
   runs s_nested_effect = [0, 1] \<and>
   deps s_nested_effect 0 (Str ''a'') = [] \<and>
   pendingEffects (obj_set s_nested_effect 1 (Str ''a'') (VNum 2)) = [] \<and>
   microtasks (obj_set s_nested_effect 1 (Str ''a'') (VNum 2)) = 0"
proof -
  have a: "activeEffect (fst (exec_cmd (Effect body) s)) = None"
    by (subst exec_Effect_unfold) (simp split: prod.splits)
  have b: "activeEffect (fst (execute s e body)) = None"
    by (subst execute_unfold) (simp split: prod.splits)
  have c: "runs s_nested_effect = [0, 1] \<and>
   deps s_nested_effect 0 (Str ''a'') = [] \<and>
   pendingEffects (obj_set s_nested_effect 1 (Str ''a'') (VNum 2)) = [] \<and>
   microtasks (obj_set s_nested_effect 1 (Str ''a'') (VNum 2)) = 0"
    by (simp add: s_nested_effect_def eval_defs exec_defs)
  show ?thesis by (intro conjI a b reactiveEffectFn_restores c)
qed

text \<open>
  C8 (usage error). With no registration context open, \<^verbatim>\<open>createEffect\<close> raises the usage
  error at once and the statement that called it leaves the state as it was.
\<close>

theorem createEffect_outside_registration:
  "activeComponentEffects s = None \<Longrightarrow>
   createEffect s fn = Inl UsageError \<and>
   exec_cmd (CreateEffect body ret) s = (s, Throw UsageError)"
  by (simp add: createEffect_def)

theorem createEffect_outside_registration_witness:
  "activeComponentEffects (init_state []) = None \<and>
   createEffect (init_state []) ([Raise], None) = Inl UsageError \<and>
   exec_cmd (CreateEffect [Raise] None) (init_state []) = (init_state [], Throw UsageError)"
  using createEffect_outside_registration[of "init_state []" "([Raise], None)" "[Raise]" None]
  by (simp add: init_state_def)

text \<open>
  C9 (deletion is not intercepted). Deleting property \<open>k\<close> through any object leaves the
  dependency graph (both indexes), the pending set, the flush flag, the queued flush jobs
  and the run log as they were, also when subscribers are tracked on \<open>k\<close>; through a wrapper
  of a plain object the property is gone from the target afterwards (the \<^verbatim>\<open>length\<close> of an
  array, which cannot be deleted, apart).
\<close>

theorem delete_not_intercepted:
  "targetMap (obj_delete s x k) = targetMap s \<and>
   effectDepsMap (obj_delete s x k) = effectDepsMap s \<and>
   pendingEffects (obj_delete s x k) = pendingEffects s \<and>
   isFlushPending (obj_delete s x k) = isFlushPending s \<and>
   microtasks (obj_delete s x k) = microtasks s \<and>
   runs (obj_delete s x k) = runs s \<and>
   (wraps_plain s x t \<longrightarrow> \<not> (is_arr (heap s ! t) \<and> k = Str ''length'') \<longrightarrow>
      exec_cmd (Delete x [] k) s = (obj_delete s x k, Normal ()) \<and>
      props (heap (obj_delete s x k) ! t) k = None \<and> \<not> obj_has (obj_delete s x k) x k)"
proof -
  have "exec_cmd (Delete x [] k) s = (obj_delete s x k, Normal ()) \<and>
        props (heap (obj_delete s x k) ! t) k = None \<and> \<not> obj_has (obj_delete s x k) x k"
    if wp: "wraps_plain s x t" and nl: "\<not> (is_arr (heap s ! t) \<and> k = Str ''length'')"
  proof -
    from wp obtain a ps arr where w: "x < length (heap s)" "t < x" "heap s ! x = Proxy t a"
      "heap s ! t = Plain ps arr" by (auto simp: wraps_plain_def)
    let ?s' = "obj_delete s x k"
    have eq: "?s' = s\<lparr>heap := (heap s)[t := raw_delete ps arr k]\<rparr>"
      using obj_delete_wrapper[OF wp] w by simp
    have tl: "t < length (heap s)" using w by simp
    have ht: "heap ?s' ! t = Plain (ps(k := None)) arr"
      using eq tl nl w by (auto simp: raw_delete_def)
    have hx: "heap ?s' ! x = Proxy t a" using eq w by simp
    have lx: "x < length (heap ?s')" and lt: "t < length (heap ?s')" using eq w by simp_all
    have nh: "\<not> obj_has ?s' x k"
      using w(2) by (simp add: obj_has_proxy[OF lx hx] obj_has_plain[OF lt ht])
    have "obj_delete_ok s x k"
      using w(2) nl by (simp add: obj_delete_ok_proxy[OF w(1,3)] obj_delete_ok_plain[OF tl w(4)] w(4))
    then have "exec_cmd (Delete x [] k) s = (?s', Normal ())" by simp
    with ht nh show ?thesis by simp
  qed
  then show ?thesis by (simp add: obj_delete_frame)
qed

theorem delete_not_intercepted_witness:
  "deps s_tracked_a 0 (Str ''a'') = [0] \<and>
   wraps_plain s_tracked_a 1 0 \<and>
   \<not> (is_arr (heap s_tracked_a ! 0) \<and> Str ''a'' = Str ''length'') \<and>
   deps (obj_delete s_tracked_a 1 (Str ''a'')) 0 (Str ''a'') = [0] \<and>
   pendingEffects (obj_delete s_tracked_a 1 (Str ''a'')) = [] \<and>
   microtasks (obj_delete s_tracked_a 1 (Str ''a'')) = 0 \<and>
   runs (obj_delete s_tracked_a 1 (Str ''a'')) = [0] \<and>
   exec_cmd (Delete 1 [] (Str ''a'')) s_tracked_a = (obj_delete s_tracked_a 1 (Str ''a''), Normal ()) \<and>
   props (heap (obj_delete s_tracked_a 1 (Str ''a'')) ! 0) (Str ''a'') = None \<and>
   \<not> obj_has (obj_delete s_tracked_a 1 (Str ''a'')) 1 (Str ''a'')"
proof -
  have d: "deps s_tracked_a 0 (Str ''a'') = [0]"
    by (simp add: s_tracked_a_def eval_defs exec_defs)
  have w: "wraps_plain s_tracked_a 1 0"
    by (auto simp add: wraps_plain_def s_tracked_a_def eval_defs exec_defs)
  have n: "\<not> (is_arr (heap s_tracked_a ! 0) \<and> Str ''a'' = Str ''length'')" by simp
  have p: "pendingEffects s_tracked_a = []" "microtasks s_tracked_a = 0" "runs s_tracked_a = [0]"
    by (simp_all add: s_tracked_a_def eval_defs exec_defs)
  note t = delete_not_intercepted[of s_tracked_a 1 "Str ''a''" 0]
  have d': "deps (obj_delete s_tracked_a 1 (Str ''a'')) 0 (Str ''a'') = [0]"
    using t d by (simp add: deps_def)
  from t w n d d' p show ?thesis by simp
qed

text \<open>
  C10 (parent linkage only at creation). When the wrapper \<open>w\<close> of \<open>t\<close> is already cached and has
  no parent linkage, \<^verbatim>\<open>createState(t, parent, key)\<close> returns \<open>w\<close> and changes nothing, so no
  linkage is recorded. A mutating method called on \<open>w\<close> afterwards enqueues only subscribers
  of properties of \<open>t\<close> or of \<open>w\<close>: a subscriber that observes the containing property alone
  is not notified.
\<close>

theorem parent_linkage_only_at_creation:
  assumes "proxyCache s t = Some w" and "wraps_plain s w t" and "proxyParentMap s w = None"
  shows "createState s t (Some parent) (Some key) = (s, w) \<and>
         proxyParentMap (fst (createState s t (Some parent) (Some key))) w = None \<and>
         (is_arr (heap s ! w) \<longrightarrow> call_method s w m native = (s', r) \<longrightarrow>
          e \<in> set (deps s parent key) \<longrightarrow> e \<notin> set (pendingEffects s) \<longrightarrow>
          (\<forall>k. e \<notin> set (deps s t k)) \<longrightarrow> (\<forall>k. e \<notin> set (deps s w k)) \<longrightarrow>
          e \<notin> set (pendingEffects s'))"
proof -
  have c: "createState s t (Some parent) (Some key) = (s, w)"
    using assms(1) by (rule createState_cached)
  have "e \<notin> set (pendingEffects s')"
    if "is_arr (heap s ! w)" "call_method s w m native = (s', r)" "e \<notin> set (pendingEffects s)"
      "\<forall>k. e \<notin> set (deps s t k)" "\<forall>k. e \<notin> set (deps s w k)"
  proof -
    have "arrayInstrumentation (method_name m) native w s = (s', r)"
      using call_method_wrapper_array[OF assms(2) that(1)] that(2) by simp
    note sub = arrayInstrumentation_wrapper[OF this assms(2,3)]
    show ?thesis
    proof
      assume "e \<in> set (pendingEffects s')"
      then have "e \<in> set (pendingEffects s) \<union> (\<Union>k. set (deps s t k)) \<union> (\<Union>k. set (deps s w k))"
        by (rule subsetD[OF sub])
      then have "e \<in> set (pendingEffects s) \<or> (\<exists>k. e \<in> set (deps s t k)) \<or> (\<exists>k. e \<in> set (deps s w k))"
        by simp
      with that(3,4,5) show False by simp
    qed
  qed
  then show ?thesis using c assms(3) by simp
qed

theorem parent_linkage_only_at_creation_witness:
  "proxyCache s_root_first 1 = Some 2 \<and> wraps_plain s_root_first 2 1 \<and>
   proxyParentMap s_root_first 2 = None \<and> is_arr (heap s_root_first ! 2) \<and>
   0 \<in> set (deps s_root_first 0 (Str ''items'')) \<and>
   0 \<notin> set (pendingEffects s_root_first) \<and>
   (\<forall>k. 0 \<notin> set (deps s_root_first 1 k)) \<and> (\<forall>k. 0 \<notin> set (deps s_root_first 2 k)) \<and>
   createState s_root_first 1 (Some 0) (Some (Str ''items'')) = (s_root_first, 2) \<and>
   0 \<notin> set (pendingEffects (fst (call_method s_root_first 2 Push (proto_push [VNum 4]))))"
proof -
  let ?s = s_root_first
  let ?c = "call_method ?s 2 Push (proto_push [VNum 4])"
  have h1: "proxyCache ?s 1 = Some 2" and h3: "proxyParentMap ?s 2 = None"
    and h4: "is_arr (heap ?s ! 2)" and h6: "0 \<notin> set (pendingEffects ?s)"
    by (simp_all add: s_root_first_def eval_defs exec_defs)
  have h2: "wraps_plain ?s 2 1"
    by (auto simp add: wraps_plain_def s_root_first_def eval_defs exec_defs)
  have h5: "0 \<in> set (deps ?s 0 (Str ''items''))"
    by (simp add: s_root_first_def eval_defs exec_defs)
  have h7: "\<forall>k. 0 \<notin> set (deps ?s 1 k)" and h8: "\<forall>k. 0 \<notin> set (deps ?s 2 k)"
    by (simp_all add: s_root_first_def eval_defs exec_defs)
  have h9: "?c = (fst ?c, snd ?c)" by simp
  note t = parent_linkage_only_at_creation[OF h1 h2 h3, of 0 "Str ''items''" Push
      "proto_push [VNum 4]" "fst ?c" "snd ?c" 0]
  from t h4 h9 h5 h6 h7 h8 have "0 \<notin> set (pendingEffects (fst ?c))" by blast
  moreover from t have "createState ?s 1 (Some 0) (Some (Str ''items'')) = (?s, 2)" by blast
  ultimately show ?thesis using h1 h2 h3 h4 h5 h6 h7 h8 by blast
qed

end
